theory Spec2Isabelle
  imports Main "HOL-Library.AList" "HOL-Library.FSet"
begin

section \<open>PageRank (pagerank.py): data model\<close>

text \<open>
  The program works on three kinds of Python values.
  \<^item> A corpus is a \<^verbatim>\<open>dict\<close> from page names to \<^verbatim>\<open>set\<close>s of page names. A dict
    keeps its keys in insertion order and every loop of the program walks that order, so
    a dict is an association list; \<^verbatim>\<open>d[k] = v\<close> is \<^const>\<open>AList.update\<close> (replace in
    place, or append a new key at the end). The keys of a dict are distinct; theorems that
    need it say \<open>distinct (map fst corpus)\<close>.
  \<^item> A set of pages is a finite set (\<open>'p fset\<close>); \<^verbatim>\<open>len\<close> is \<^const>\<open>fcard\<close>.
  \<^item> Python floats are modelled by exact rationals: every arithmetic expression of the
    source is kept as written, evaluated without rounding. Where a property of
    \<^verbatim>\<open>iterate_pagerank\<close> depends on the rounding (which sweep is the last), the loop is
    modelled a second time over an arbitrary arithmetic (the definitions named \<open>_ar\<close>).
  Exceptions are values: a computation returns \<open>py_error + 'a\<close>, \<open>Inl\<close> the exception.
\<close>

datatype py_error = IndexError | KeyError | TypeError | ValueError | ZeroDivisionError | OSError

type_synonym 'p corpus = "('p \<times> 'p fset) list"

type_synonym 'p ranks = "('p \<times> rat) list"

definition ebind :: "py_error + 'a \<Rightarrow> ('a \<Rightarrow> py_error + 'b) \<Rightarrow> py_error + 'b" where
  "ebind m f = (case m of Inl e \<Rightarrow> Inl e | Inr x \<Rightarrow> f x)"

text \<open>A \<^verbatim>\<open>for\<close> loop over a list whose body may raise: the first exception ends the loop.\<close>

fun efold :: "('a \<Rightarrow> 's \<Rightarrow> py_error + 's) \<Rightarrow> 'a list \<Rightarrow> 's \<Rightarrow> py_error + 's" where
  "efold f [] s = Inr s"
| "efold f (x # xs) s = ebind (f x s) (efold f xs)"

text \<open>\<^verbatim>\<open>a / b\<close> on numbers raises ZeroDivisionError when \<^verbatim>\<open>b\<close> is zero.\<close>

definition py_div :: "rat \<Rightarrow> rat \<Rightarrow> py_error + rat" where
  "py_div a b = (if b = 0 then Inl ZeroDivisionError else Inr (a / b))"

text \<open>\<^verbatim>\<open>d[k]\<close> raises KeyError when \<^verbatim>\<open>k\<close> is not a key.\<close>

definition getitem :: "('k \<times> 'v) list \<Rightarrow> 'k \<Rightarrow> py_error + 'v" where
  "getitem d k = (case map_of d k of None \<Rightarrow> Inl KeyError | Some v \<Rightarrow> Inr v)"

section \<open>transition_model\<close>

text \<open>
  \<^verbatim>\<open>
  def transition_model(corpus, page, damping_factor):
      results_dict = {}
      num_websites = len(corpus)
      page_links = corpus.get(page)
      for website, links in corpus.items():
          if len(links) == 0:
              results_dict[website] = (1/num_websites)
          elif (website == page) or (website not in page_links):
              results_dict[website] = ((1-damping_factor)/num_websites)
          else:
              results_dict[website] = ((1-damping_factor)/num_websites) + (damping_factor/len(page_links))
      return results_dict
  \<close>
  \<^verbatim>\<open>corpus.get(page)\<close> is \<^verbatim>\<open>None\<close> for a page that is no key, and then
  \<^verbatim>\<open>website not in page_links\<close> raises TypeError when it is evaluated. The test
  \<^verbatim>\<open>len(links) == 0\<close> looks at the links of the page the loop is at (\<^verbatim>\<open>website\<close>),
  not at those of the current page.
\<close>

definition transition_weight ::
  "nat \<Rightarrow> 'p fset option \<Rightarrow> 'p \<Rightarrow> rat \<Rightarrow> 'p \<Rightarrow> 'p fset \<Rightarrow> py_error + rat" where
  "transition_weight num_websites page_links page damping_factor website links =
     (if fcard links = 0 then py_div 1 (of_nat num_websites)
      else if website = page then py_div (1 - damping_factor) (of_nat num_websites)
      else (case page_links of
              None \<Rightarrow> Inl TypeError
            | Some pl \<Rightarrow>
                if website |\<notin>| pl then py_div (1 - damping_factor) (of_nat num_websites)
                else ebind (py_div (1 - damping_factor) (of_nat num_websites)) (\<lambda>a.
                     ebind (py_div damping_factor (of_nat (fcard pl))) (\<lambda>b.
                     Inr (a + b)))))"

definition transition_step ::
  "nat \<Rightarrow> 'p fset option \<Rightarrow> 'p \<Rightarrow> rat \<Rightarrow> 'p \<times> 'p fset \<Rightarrow> 'p ranks \<Rightarrow> py_error + 'p ranks" where
  "transition_step num_websites page_links page damping_factor item results_dict =
     ebind (transition_weight num_websites page_links page damping_factor (fst item) (snd item))
       (\<lambda>w. Inr (AList.update (fst item) w results_dict))"

definition transition_model :: "'p corpus \<Rightarrow> 'p \<Rightarrow> rat \<Rightarrow> py_error + 'p ranks" where
  "transition_model corpus page damping_factor =
     efold (transition_step (length corpus) (map_of corpus page) page damping_factor) corpus []"

text \<open>The sum of the values of a dict of numbers.\<close>

definition total_mass :: "'p ranks \<Rightarrow> rat" where
  "total_mass d = sum_list (map snd d)"

text \<open>The two-page corpus \<^verbatim>\<open>{"A": {"B"}, "B": set()}\<close>: \<^verbatim>\<open>B\<close> is dangling.\<close>

definition corpus_AB :: "string corpus" where
  "corpus_AB = [(''A'', {|''B''|}), (''B'', {||})]"

section \<open>sample_pagerank\<close>

text \<open>
  \<^verbatim>\<open>
  DAMPING = 0.85
  SAMPLES = 10000

  def sample_pagerank(corpus, damping_factor, n):
      samples = []
      sample_PR_results = {}
      websites = list(corpus.keys())
      page = random.choice(websites)
      samples.append(page)
      for x in range(1,n):
          prediction = transition_model(corpus, page, damping_factor)
          probabilities = list(prediction.values())
          page = list(random.choices(websites, probabilities, k = 1))
          page = page[0]
          samples.append(page)
      samples_count = Counter(samples)
      for website, count in samples_count.items():
          sample_PR_results[website] = count / SAMPLES
      return sample_PR_results
  \<close>
  The module \<^verbatim>\<open>random\<close> is Python's library, not code of the program. Which element it
  draws is a parameter \<open>rnd\<close> of the model: the draw of the call numbered \<open>k\<close> (0 for
  \<^verbatim>\<open>random.choice\<close>, the loop variable \<^verbatim>\<open>x\<close> for each \<^verbatim>\<open>random.choices\<close>) on a
  population of \<open>n\<close> elements is the element at index \<open>rnd k mod n\<close>. The library's
  checks of its arguments are kept, in the library's order: \<^verbatim>\<open>random.choice\<close> raises
  IndexError on an empty sequence; \<^verbatim>\<open>random.choices\<close> raises ValueError when the weights
  are not as many as the population, IndexError on an empty population, and ValueError
  when the total of the weights is not positive.
\<close>

definition DAMPING :: rat where
  "DAMPING = 85 / 100"

definition SAMPLES :: nat where
  "SAMPLES = 10000"

definition random_choice :: "nat \<Rightarrow> 'a list \<Rightarrow> py_error + 'a" where
  "random_choice r seq = (if seq = [] then Inl IndexError else Inr (seq ! (r mod length seq)))"

definition random_choices :: "nat \<Rightarrow> 'a list \<Rightarrow> rat list \<Rightarrow> py_error + 'a" where
  "random_choices r population weights =
     (if length weights \<noteq> length population then Inl ValueError
      else if population = [] then Inl IndexError
      else if sum_list weights \<le> 0 then Inl ValueError
      else Inr (population ! (r mod length population)))"

text \<open>One round of the loop: the state is the current page and the samples so far.\<close>

definition sample_step ::
  "(nat \<Rightarrow> nat) \<Rightarrow> 'p corpus \<Rightarrow> rat \<Rightarrow> 'p list \<Rightarrow> int \<Rightarrow> 'p \<times> 'p list \<Rightarrow> py_error + 'p \<times> 'p list" where
  "sample_step rnd corpus damping_factor websites x st =
     ebind (transition_model corpus (fst st) damping_factor) (\<lambda>prediction.
     ebind (random_choices (rnd (nat x)) websites (map snd prediction)) (\<lambda>page.
     Inr (page, snd st @ [page])))"

text \<open>\<^verbatim>\<open>Counter(samples)\<close>: each element with the number of its occurrences, in the order of
  first occurrence.\<close>

definition Counter :: "'a list \<Rightarrow> ('a \<times> nat) list" where
  "Counter samples =
     fold (\<lambda>elem c. AList.update elem (case map_of c elem of None \<Rightarrow> 1 | Some k \<Rightarrow> k + 1) c)
       samples []"

definition tally_step :: "'p \<times> nat \<Rightarrow> 'p ranks \<Rightarrow> py_error + 'p ranks" where
  "tally_step item sample_PR_results =
     ebind (py_div (of_nat (snd item)) (of_nat SAMPLES)) (\<lambda>v.
     Inr (AList.update (fst item) v sample_PR_results))"

definition sample_walk ::
  "(nat \<Rightarrow> nat) \<Rightarrow> 'p corpus \<Rightarrow> rat \<Rightarrow> int \<Rightarrow> py_error + 'p list" where
  "sample_walk rnd corpus damping_factor n =
     (let websites = map fst corpus in
      ebind (random_choice (rnd 0) websites) (\<lambda>page.
      ebind (efold (sample_step rnd corpus damping_factor websites) [1..n - 1] (page, [page]))
        (\<lambda>st. Inr (snd st))))"

definition sample_pagerank ::
  "(nat \<Rightarrow> nat) \<Rightarrow> 'p corpus \<Rightarrow> rat \<Rightarrow> int \<Rightarrow> py_error + 'p ranks" where
  "sample_pagerank rnd corpus damping_factor n =
     ebind (sample_walk rnd corpus damping_factor n) (\<lambda>samples.
     efold tally_step (Counter samples) [])"

section \<open>iterate_pagerank\<close>

text \<open>
  \<^verbatim>\<open>
  def iterate_pagerank(corpus, damping_factor):
      pagerank = dict()
      new_rank = dict()
      for page in corpus:
          pagerank[page] = 1 / len(corpus)
      stop = False
      while stop == False:
          stop = True
          for page in pagerank:
              total = 0
              for possible_page in corpus:
                  if page in corpus[possible_page]:
                      total += (pagerank[possible_page] / len(corpus[possible_page]))
                  if len(corpus[possible_page]) == 0:
                      total += (pagerank[possible_page] / len(corpus))
              new_rank[page] = ((1 - damping_factor) / len(corpus)) + (damping_factor * total)
          for page in pagerank:
              if abs(pagerank[page] - new_rank[page]) > 0.001:
                  stop = False
              pagerank[page] = new_rank[page]
      return pagerank
  \<close>
  The two dicts \<^verbatim>\<open>pagerank\<close> and \<^verbatim>\<open>new_rank\<close> are the state of the loop; both are
  updated key by key, as the source does. The \<^verbatim>\<open>while\<close> loop need not end, so it is a
  partial function: \<open>None\<close> is a run that never returns, \<open>Some (Inl e)\<close> a run that
  raises, \<open>Some (Inr r)\<close> a run that returns \<open>r\<close>.
\<close>

definition init_step :: "'p corpus \<Rightarrow> 'p \<Rightarrow> 'p ranks \<Rightarrow> py_error + 'p ranks" where
  "init_step corpus page pagerank =
     ebind (py_div 1 (of_nat (length corpus))) (\<lambda>v. Inr (AList.update page v pagerank))"

definition init_pagerank :: "'p corpus \<Rightarrow> py_error + 'p ranks" where
  "init_pagerank corpus = efold (init_step corpus) (map fst corpus) []"

text \<open>The body of the innermost loop, for one \<^verbatim>\<open>possible_page\<close>: the two \<^verbatim>\<open>if\<close>s in turn
  (\<open>tot\<close> is the source's \<^verbatim>\<open>total\<close>).\<close>

definition add_contribution ::
  "'p corpus \<Rightarrow> 'p ranks \<Rightarrow> 'p \<Rightarrow> 'p \<Rightarrow> rat \<Rightarrow> py_error + rat" where
  "add_contribution corpus pagerank page possible_page tot =
     ebind (getitem corpus possible_page) (\<lambda>links.
     ebind (if page |\<in>| links
            then ebind (getitem pagerank possible_page) (\<lambda>r.
                 ebind (py_div r (of_nat (fcard links))) (\<lambda>c. Inr (tot + c)))
            else Inr tot) (\<lambda>tot1.
     if fcard links = 0
     then ebind (getitem pagerank possible_page) (\<lambda>r.
          ebind (py_div r (of_nat (length corpus))) (\<lambda>c. Inr (tot1 + c)))
     else Inr tot1))"

definition new_rank_step ::
  "'p corpus \<Rightarrow> rat \<Rightarrow> 'p ranks \<Rightarrow> 'p \<Rightarrow> 'p ranks \<Rightarrow> py_error + 'p ranks" where
  "new_rank_step corpus damping_factor pagerank page new_rank =
     ebind (efold (add_contribution corpus pagerank page) (map fst corpus) 0) (\<lambda>tot.
     ebind (py_div (1 - damping_factor) (of_nat (length corpus))) (\<lambda>base.
     Inr (AList.update page (base + damping_factor * tot) new_rank)))"

text \<open>The body of the second inner loop; the state is \<^verbatim>\<open>stop\<close> and \<^verbatim>\<open>pagerank\<close>.\<close>

definition commit_step ::
  "'p ranks \<Rightarrow> 'p \<Rightarrow> bool \<times> 'p ranks \<Rightarrow> py_error + bool \<times> 'p ranks" where
  "commit_step new_rank page st =
     ebind (getitem (snd st) page) (\<lambda>old.
     ebind (getitem new_rank page) (\<lambda>new.
     Inr (if abs (old - new) > 1 / 1000 then False else fst st,
          AList.update page new (snd st))))"

text \<open>One round of the \<^verbatim>\<open>while\<close> loop: \<^verbatim>\<open>stop\<close>, \<^verbatim>\<open>pagerank\<close> and \<^verbatim>\<open>new_rank\<close> after it.\<close>

definition sweep ::
  "'p corpus \<Rightarrow> rat \<Rightarrow> 'p ranks \<Rightarrow> 'p ranks \<Rightarrow> py_error + bool \<times> 'p ranks \<times> 'p ranks" where
  "sweep corpus damping_factor pagerank new_rank =
     ebind (efold (new_rank_step corpus damping_factor pagerank) (map fst pagerank) new_rank)
       (\<lambda>new_rank'.
     ebind (efold (commit_step new_rank') (map fst pagerank) (True, pagerank)) (\<lambda>st.
     Inr (fst st, snd st, new_rank')))"

partial_function (option) iterate_loop ::
  "'p corpus \<Rightarrow> rat \<Rightarrow> 'p ranks \<Rightarrow> 'p ranks \<Rightarrow> (py_error + 'p ranks) option" where
  "iterate_loop corpus damping_factor pagerank new_rank =
     (case sweep corpus damping_factor pagerank new_rank of
        Inl e \<Rightarrow> Some (Inl e)
      | Inr (stop, pagerank', new_rank') \<Rightarrow>
          if stop then Some (Inr pagerank')
          else iterate_loop corpus damping_factor pagerank' new_rank')"

definition iterate_pagerank :: "'p corpus \<Rightarrow> rat \<Rightarrow> (py_error + 'p ranks) option" where
  "iterate_pagerank corpus damping_factor =
     (case init_pagerank corpus of
        Inl e \<Rightarrow> Some (Inl e)
      | Inr pagerank \<Rightarrow> iterate_loop corpus damping_factor pagerank [])"

section \<open>crawl\<close>

text \<open>
  \<^verbatim>\<open>
  def crawl(directory):
      pages = dict()
      for filename in os.listdir(directory):
          if not filename.endswith(".html"):
              continue
          with open(os.path.join(directory, filename)) as f:
              contents = f.read()
              links = re.findall(r"<a\s+(?:[^>]*?)href=\"([^\"]*)\"", contents)
              pages[filename] = set(links) - {filename}
      for filename in pages:
          pages[filename] = set(
              link for link in pages[filename]
              if link in pages
          )
      return pages
  \<close>
  The file system and the regular-expression library are outside the program; they
  are parameters of the model: \<open>os_listdir directory\<close> is the listing of the directory
  (or the exception \<^verbatim>\<open>os.listdir\<close> raises), \<open>read_file directory filename\<close> the text
  read from the file of that name in the directory (or the exception of \<^verbatim>\<open>open\<close> or
  \<^verbatim>\<open>read\<close>), and \<open>findall contents\<close> the list of \<^verbatim>\<open>href\<close> targets the pattern
  matches in a text.
\<close>

definition endswith :: "string \<Rightarrow> string \<Rightarrow> bool" where
  "endswith s suffix =
     (length suffix \<le> length s \<and> drop (length s - length suffix) s = suffix)"

definition read_step ::
  "(string \<Rightarrow> string \<Rightarrow> py_error + string) \<Rightarrow> (string \<Rightarrow> string list) \<Rightarrow> string \<Rightarrow>
   string \<Rightarrow> string corpus \<Rightarrow> py_error + string corpus" where
  "read_step read_file findall directory filename pages =
     (if \<not> endswith filename ''.html'' then Inr pages
      else ebind (read_file directory filename) (\<lambda>contents.
           Inr (AList.update filename (fset_of_list (findall contents) |-| {|filename|}) pages)))"

definition restrict_step :: "string \<Rightarrow> string corpus \<Rightarrow> py_error + string corpus" where
  "restrict_step filename pages =
     ebind (getitem pages filename) (\<lambda>links.
     Inr (AList.update filename (ffilter (\<lambda>link. link \<in> set (map fst pages)) links) pages))"

definition crawl ::
  "(string \<Rightarrow> py_error + string list) \<Rightarrow> (string \<Rightarrow> string \<Rightarrow> py_error + string) \<Rightarrow>
   (string \<Rightarrow> string list) \<Rightarrow> string \<Rightarrow> py_error + string corpus" where
  "crawl os_listdir read_file findall directory =
     ebind (os_listdir directory) (\<lambda>filenames.
     ebind (efold (read_step read_file findall directory) filenames []) (\<lambda>pages.
     efold restrict_step (map fst pages) pages))"

text \<open>
  An example directory: the files \<^verbatim>\<open>1.html\<close>, \<^verbatim>\<open>2.html\<close> and \<^verbatim>\<open>notes.txt\<close>. To keep
  the example small the text of a file is its name; the links found in \<^verbatim>\<open>1.html\<close> are
  \<^verbatim>\<open>2.html\<close>, \<^verbatim>\<open>1.html\<close> (itself) and \<^verbatim>\<open>x.html\<close> (not in the directory), the links
  found in any other file are \<^verbatim>\<open>1.html\<close>.
\<close>

definition demo_listdir :: "string \<Rightarrow> py_error + string list" where
  "demo_listdir directory = Inr [''1.html'', ''2.html'', ''notes.txt'']"

definition demo_read :: "string \<Rightarrow> string \<Rightarrow> py_error + string" where
  "demo_read directory filename = Inr filename"

definition demo_findall :: "string \<Rightarrow> string list" where
  "demo_findall contents =
     (if contents = ''1.html'' then [''2.html'', ''1.html'', ''x.html''] else [''1.html''])"

section \<open>Properties of a corpus\<close>

text \<open>The Graph invariant of the specification: every page that is a link target is a key.\<close>

definition links_in_corpus :: "'p corpus \<Rightarrow> bool" where
  "links_in_corpus corpus = list_all (\<lambda>item. snd item |\<subseteq>| fset_of_list (map fst corpus)) corpus"

text \<open>No page links to itself.\<close>

definition no_self_links :: "'p corpus \<Rightarrow> bool" where
  "no_self_links corpus = list_all (\<lambda>item. fst item |\<notin>| snd item) corpus"

section \<open>Closed forms\<close>

text \<open>
  The value \<^verbatim>\<open>transition_model\<close> stores for one item of the corpus when the current
  page is a key with links \<open>pl\<close>: the three branches of the loop body, without the
  exceptions (none is raised then).
\<close>

definition weight_of :: "nat \<Rightarrow> 'p fset \<Rightarrow> 'p \<Rightarrow> rat \<Rightarrow> 'p \<times> 'p fset \<Rightarrow> rat" where
  "weight_of N pl page d item =
     (if snd item = {||} then 1 / of_nat N
      else if fst item = page \<or> fst item |\<notin>| pl then (1 - d) / of_nat N
      else (1 - d) / of_nat N + d / of_nat (fcard pl))"

text \<open>The rank a dict holds for a page, and the links a corpus holds for it.\<close>

definition rank_of :: "'p ranks \<Rightarrow> 'p \<Rightarrow> rat" where
  "rank_of pagerank q = (case map_of pagerank q of None \<Rightarrow> 0 | Some r \<Rightarrow> r)"

definition links_of :: "'p corpus \<Rightarrow> 'p \<Rightarrow> 'p fset" where
  "links_of corpus q = (case map_of corpus q of None \<Rightarrow> {||} | Some links \<Rightarrow> links)"

text \<open>
  The synchronous update of the specification (4.3, step 2): what \<open>possible_page\<close> adds
  to the total of \<open>page\<close>, the new rank of \<open>page\<close>, and a whole sweep. Each is a
  function of the ranks before the sweep only.
\<close>

definition contribution :: "'p corpus \<Rightarrow> 'p ranks \<Rightarrow> 'p \<Rightarrow> 'p \<Rightarrow> rat" where
  "contribution corpus pagerank page q =
     (if page |\<in>| links_of corpus q
      then rank_of pagerank q / of_nat (fcard (links_of corpus q)) else 0) +
     (if links_of corpus q = {||} then rank_of pagerank q / of_nat (length corpus) else 0)"

definition new_rank_value :: "'p corpus \<Rightarrow> rat \<Rightarrow> 'p ranks \<Rightarrow> 'p \<Rightarrow> rat" where
  "new_rank_value corpus d pagerank page =
     (1 - d) / of_nat (length corpus) +
     d * sum_list (map (contribution corpus pagerank page) (map fst corpus))"

definition synchronous_sweep :: "'p corpus \<Rightarrow> rat \<Rightarrow> 'p ranks \<Rightarrow> 'p ranks" where
  "synchronous_sweep corpus d pagerank =
     map (\<lambda>item. (fst item, new_rank_value corpus d pagerank (fst item))) pagerank"

text \<open>The convergence test of the specification (4.3, step 2c): no page's rank moved by
  more than 0.001 between the ranks before a sweep and the ranks after it.\<close>

definition converged :: "'p ranks \<Rightarrow> 'p ranks \<Rightarrow> bool" where
  "converged pagerank pagerank' =
     list_all (\<lambda>page. abs (rank_of pagerank page - rank_of pagerank' page) \<le> 1 / 1000)
       (map fst pagerank)"

text \<open>The initial ranks, and the ranks after \<open>k\<close> synchronous sweeps.\<close>

definition uniform_ranks :: "'p corpus \<Rightarrow> 'p ranks" where
  "uniform_ranks corpus = map (\<lambda>item. (fst item, 1 / of_nat (length corpus))) corpus"

definition sweeps :: "'p corpus \<Rightarrow> rat \<Rightarrow> nat \<Rightarrow> 'p ranks" where
  "sweeps corpus d k = ((synchronous_sweep corpus d) ^^ k) (uniform_ranks corpus)"

text \<open>The loop returns after sweep \<open>k + 1\<close>: that sweep is the first whose ranks all moved by
  at most 0.001.\<close>

definition stops_at :: "'p corpus \<Rightarrow> rat \<Rightarrow> nat \<Rightarrow> bool" where
  "stops_at corpus d k =
     (converged (sweeps corpus d k) (sweeps corpus d (Suc k)) \<and>
      list_all (\<lambda>j. \<not> converged (sweeps corpus d j) (sweeps corpus d (Suc j))) [0..<k])"

section \<open>iterate_pagerank over any arithmetic\<close>

text \<open>
  The loop of \<^verbatim>\<open>iterate_pagerank\<close> (lines 111 to 132, quoted above) once more, with the
  numbers left open. Python computes the ranks in doubles, and which sweep is the last
  depends on their rounding; so here the type \<open>'n\<close> of the numbers and every operation
  the code applies to them are parameters, of which nothing is assumed. Python's doubles
  with their rounded operations are one such arithmetic, the exact rationals of the
  sections above another (\<open>rat_arith\<close>).
  \<^item> \<open>n_of_int\<close> is the conversion of an \<^verbatim>\<open>int\<close> operand in mixed arithmetic
    (\<^verbatim>\<open>total = 0\<close>, \<^verbatim>\<open>1 - damping_factor\<close>, a divisor \<^verbatim>\<open>len(...)\<close>);
  \<^item> \<open>n_truediv\<close> is \<^verbatim>\<open>/\<close> on two \<^verbatim>\<open>int\<close>s (\<^verbatim>\<open>1 / len(corpus)\<close>);
  \<^item> \<open>n_add\<close>, \<open>n_sub\<close>, \<open>n_mul\<close>, \<open>n_div\<close>, \<open>n_abs\<close> are \<^verbatim>\<open>+\<close>, \<^verbatim>\<open>-\<close>,
    \<^verbatim>\<open>*\<close>, \<^verbatim>\<open>/\<close> and \<^verbatim>\<open>abs\<close>, \<open>n_gt\<close> is \<^verbatim>\<open>>\<close>, and \<open>n_0_001\<close> is the
    literal \<^verbatim>\<open>0.001\<close>.
  Every divisor of the code is an \<^verbatim>\<open>int\<close> (a \<^verbatim>\<open>len\<close>), and \<^verbatim>\<open>/\<close> raises
  ZeroDivisionError exactly when it is zero. The definitions follow the source line by
  line, as \<open>init_step\<close> to \<open>iterate_pagerank\<close> do; only the arithmetic differs.
\<close>

record 'n arith =
  n_of_int :: "int \<Rightarrow> 'n"
  n_truediv :: "int \<Rightarrow> int \<Rightarrow> 'n"
  n_add :: "'n \<Rightarrow> 'n \<Rightarrow> 'n"
  n_sub :: "'n \<Rightarrow> 'n \<Rightarrow> 'n"
  n_mul :: "'n \<Rightarrow> 'n \<Rightarrow> 'n"
  n_div :: "'n \<Rightarrow> 'n \<Rightarrow> 'n"
  n_abs :: "'n \<Rightarrow> 'n"
  n_gt :: "'n \<Rightarrow> 'n \<Rightarrow> bool"
  n_0_001 :: "'n"

definition py_truediv_ar :: "'n arith \<Rightarrow> int \<Rightarrow> nat \<Rightarrow> py_error + 'n" where
  "py_truediv_ar ar a n =
     (if n = 0 then Inl ZeroDivisionError else Inr (n_truediv ar a (int n)))"

definition py_div_ar :: "'n arith \<Rightarrow> 'n \<Rightarrow> nat \<Rightarrow> py_error + 'n" where
  "py_div_ar ar a n =
     (if n = 0 then Inl ZeroDivisionError else Inr (n_div ar a (n_of_int ar (int n))))"

definition init_step_ar ::
  "'n arith \<Rightarrow> 'p corpus \<Rightarrow> 'p \<Rightarrow> ('p \<times> 'n) list \<Rightarrow> py_error + ('p \<times> 'n) list" where
  "init_step_ar ar corpus page pagerank =
     ebind (py_truediv_ar ar 1 (length corpus)) (\<lambda>v. Inr (AList.update page v pagerank))"

definition init_pagerank_ar :: "'n arith \<Rightarrow> 'p corpus \<Rightarrow> py_error + ('p \<times> 'n) list" where
  "init_pagerank_ar ar corpus = efold (init_step_ar ar corpus) (map fst corpus) []"

definition add_contribution_ar ::
  "'n arith \<Rightarrow> 'p corpus \<Rightarrow> ('p \<times> 'n) list \<Rightarrow> 'p \<Rightarrow> 'p \<Rightarrow> 'n \<Rightarrow> py_error + 'n" where
  "add_contribution_ar ar corpus pagerank page possible_page tot =
     ebind (getitem corpus possible_page) (\<lambda>links.
     ebind (if page |\<in>| links
            then ebind (getitem pagerank possible_page) (\<lambda>r.
                 ebind (py_div_ar ar r (fcard links)) (\<lambda>c. Inr (n_add ar tot c)))
            else Inr tot) (\<lambda>tot1.
     if fcard links = 0
     then ebind (getitem pagerank possible_page) (\<lambda>r.
          ebind (py_div_ar ar r (length corpus)) (\<lambda>c. Inr (n_add ar tot1 c)))
     else Inr tot1))"

definition new_rank_step_ar ::
  "'n arith \<Rightarrow> 'p corpus \<Rightarrow> 'n \<Rightarrow> ('p \<times> 'n) list \<Rightarrow> 'p \<Rightarrow> ('p \<times> 'n) list \<Rightarrow>
   py_error + ('p \<times> 'n) list" where
  "new_rank_step_ar ar corpus damping_factor pagerank page new_rank =
     ebind (efold (add_contribution_ar ar corpus pagerank page) (map fst corpus) (n_of_int ar 0))
       (\<lambda>tot.
     ebind (py_div_ar ar (n_sub ar (n_of_int ar 1) damping_factor) (length corpus)) (\<lambda>base.
     Inr (AList.update page (n_add ar base (n_mul ar damping_factor tot)) new_rank)))"

definition commit_step_ar ::
  "'n arith \<Rightarrow> ('p \<times> 'n) list \<Rightarrow> 'p \<Rightarrow> bool \<times> ('p \<times> 'n) list \<Rightarrow>
   py_error + bool \<times> ('p \<times> 'n) list" where
  "commit_step_ar ar new_rank page st =
     ebind (getitem (snd st) page) (\<lambda>old.
     ebind (getitem new_rank page) (\<lambda>new.
     Inr (if n_gt ar (n_abs ar (n_sub ar old new)) (n_0_001 ar) then False else fst st,
          AList.update page new (snd st))))"

definition sweep_ar ::
  "'n arith \<Rightarrow> 'p corpus \<Rightarrow> 'n \<Rightarrow> ('p \<times> 'n) list \<Rightarrow> ('p \<times> 'n) list \<Rightarrow>
   py_error + bool \<times> ('p \<times> 'n) list \<times> ('p \<times> 'n) list" where
  "sweep_ar ar corpus damping_factor pagerank new_rank =
     ebind (efold (new_rank_step_ar ar corpus damping_factor pagerank) (map fst pagerank) new_rank)
       (\<lambda>new_rank'.
     ebind (efold (commit_step_ar ar new_rank') (map fst pagerank) (True, pagerank)) (\<lambda>st.
     Inr (fst st, snd st, new_rank')))"

partial_function (option) iterate_loop_ar ::
  "'n arith \<Rightarrow> 'p corpus \<Rightarrow> 'n \<Rightarrow> ('p \<times> 'n) list \<Rightarrow> ('p \<times> 'n) list \<Rightarrow>
   (py_error + ('p \<times> 'n) list) option" where
  "iterate_loop_ar ar corpus damping_factor pagerank new_rank =
     (case sweep_ar ar corpus damping_factor pagerank new_rank of
        Inl e \<Rightarrow> Some (Inl e)
      | Inr (stop, pagerank', new_rank') \<Rightarrow>
          if stop then Some (Inr pagerank')
          else iterate_loop_ar ar corpus damping_factor pagerank' new_rank')"

definition iterate_pagerank_ar ::
  "'n arith \<Rightarrow> 'p corpus \<Rightarrow> 'n \<Rightarrow> (py_error + ('p \<times> 'n) list) option" where
  "iterate_pagerank_ar ar corpus damping_factor =
     (case init_pagerank_ar ar corpus of
        Inl e \<Rightarrow> Some (Inl e)
      | Inr pagerank \<Rightarrow> iterate_loop_ar ar corpus damping_factor pagerank [])"

text \<open>Two arithmetics on the rationals: the exact one, and one whose \<^verbatim>\<open>>\<close> is \<open>\<ge>\<close>
  (it differs from the exact one only for a change of exactly 0.001).\<close>

definition rat_arith :: "rat arith" where
  "rat_arith =
     \<lparr>n_of_int = of_int, n_truediv = (\<lambda>a b. of_int a / of_int b), n_add = (\<lambda>a b. a + b),
      n_sub = (\<lambda>a b. a - b), n_mul = (\<lambda>a b. a * b), n_div = (\<lambda>a b. a / b), n_abs = abs,
      n_gt = (\<lambda>a b. a > b), n_0_001 = 1 / 1000\<rparr>"

definition tight_arith :: "rat arith" where
  "tight_arith = rat_arith\<lparr>n_gt := (\<lambda>a b. a \<ge> b)\<rparr>"

text \<open>
  The synchronous update of the specification (4.3, step 2) in the arithmetic \<open>ar\<close>. The
  sum over the pages is taken in the order of the corpus, starting from \<^verbatim>\<open>0\<close>; each page
  \<open>q\<close> adds its share \<^verbatim>\<open>pagerank[q] / L\<close> when it links to \<open>page\<close> and
  \<^verbatim>\<open>pagerank[q] / N\<close> when it is dangling. Each definition is a function of the ranks before
  the sweep only. A sweep has converged when for no page the test \<^verbatim>\<open>> 0.001\<close> of the
  absolute change holds; for numbers that are comparable (every double but NaN) that is a
  change of at most 0.001.
\<close>

definition rank_of_ar :: "'n arith \<Rightarrow> ('p \<times> 'n) list \<Rightarrow> 'p \<Rightarrow> 'n" where
  "rank_of_ar ar pagerank q = (case map_of pagerank q of None \<Rightarrow> n_of_int ar 0 | Some r \<Rightarrow> r)"

definition add_share_ar ::
  "'n arith \<Rightarrow> 'p corpus \<Rightarrow> ('p \<times> 'n) list \<Rightarrow> 'p \<Rightarrow> 'n \<Rightarrow> 'p \<Rightarrow> 'n" where
  "add_share_ar ar corpus pagerank page tot q =
     (let tot1 =
        (if page |\<in>| links_of corpus q
         then n_add ar tot
                (n_div ar (rank_of_ar ar pagerank q) (n_of_int ar (int (fcard (links_of corpus q)))))
         else tot)
      in if links_of corpus q = {||}
         then n_add ar tot1 (n_div ar (rank_of_ar ar pagerank q) (n_of_int ar (int (length corpus))))
         else tot1)"

definition new_rank_value_ar ::
  "'n arith \<Rightarrow> 'p corpus \<Rightarrow> 'n \<Rightarrow> ('p \<times> 'n) list \<Rightarrow> 'p \<Rightarrow> 'n" where
  "new_rank_value_ar ar corpus d pagerank page =
     n_add ar
       (n_div ar (n_sub ar (n_of_int ar 1) d) (n_of_int ar (int (length corpus))))
       (n_mul ar d (foldl (add_share_ar ar corpus pagerank page) (n_of_int ar 0) (map fst corpus)))"

definition synchronous_sweep_ar ::
  "'n arith \<Rightarrow> 'p corpus \<Rightarrow> 'n \<Rightarrow> ('p \<times> 'n) list \<Rightarrow> ('p \<times> 'n) list" where
  "synchronous_sweep_ar ar corpus d pagerank =
     map (\<lambda>item. (fst item, new_rank_value_ar ar corpus d pagerank (fst item))) pagerank"

definition converged_ar :: "'n arith \<Rightarrow> ('p \<times> 'n) list \<Rightarrow> ('p \<times> 'n) list \<Rightarrow> bool" where
  "converged_ar ar pagerank pagerank' =
     list_all
       (\<lambda>page. \<not> n_gt ar (n_abs ar (n_sub ar (rank_of_ar ar pagerank page)
                                          (rank_of_ar ar pagerank' page))) (n_0_001 ar))
       (map fst pagerank)"

definition uniform_ranks_ar :: "'n arith \<Rightarrow> 'p corpus \<Rightarrow> ('p \<times> 'n) list" where
  "uniform_ranks_ar ar corpus = map (\<lambda>item. (fst item, n_truediv ar 1 (int (length corpus)))) corpus"

definition sweeps_ar :: "'n arith \<Rightarrow> 'p corpus \<Rightarrow> 'n \<Rightarrow> nat \<Rightarrow> ('p \<times> 'n) list" where
  "sweeps_ar ar corpus d k = ((synchronous_sweep_ar ar corpus d) ^^ k) (uniform_ranks_ar ar corpus)"

definition stops_at_ar :: "'n arith \<Rightarrow> 'p corpus \<Rightarrow> 'n \<Rightarrow> nat \<Rightarrow> bool" where
  "stops_at_ar ar corpus d k =
     (converged_ar ar (sweeps_ar ar corpus d k) (sweeps_ar ar corpus d (Suc k)) \<and>
      list_all (\<lambda>j. \<not> converged_ar ar (sweeps_ar ar corpus d j) (sweeps_ar ar corpus d (Suc j)))
        [0..<k])"

section \<open>transition_model: what the code returns\<close>

lemma ebind_Inr [simp]: "ebind (Inr x) f = f x"
  by (simp add: ebind_def)

lemma ebind_Inl [simp]: "ebind (Inl e) f = Inl e"
  by (simp add: ebind_def)

lemma py_div_nonzero: "b \<noteq> 0 \<Longrightarrow> py_div a b = Inr (a / b)"
  by (simp add: py_div_def)

lemma update_fresh: "k \<notin> fst ` set al \<Longrightarrow> AList.update k v al = al @ [(k, v)]"
  by (induction al) auto

lemma fcard_pos_of_mem: "x |\<in>| A \<Longrightarrow> fcard A \<noteq> 0"
  by (auto simp: fcard_0_eq)

lemma transition_weight_key:
  "N \<noteq> 0 \<Longrightarrow> transition_weight N (Some pl) page d w links = Inr (weight_of N pl page d (w, links))"
  using fcard_pos_of_mem[of w pl]
  by (auto simp: transition_weight_def weight_of_def py_div_nonzero fcard_0_eq)

lemma transition_weight_nokey:
  "N \<noteq> 0 \<Longrightarrow> w \<noteq> page \<Longrightarrow> transition_weight N None page d w links =
     (if links = {||} then Inr (1 / of_nat N) else Inl TypeError)"
  by (auto simp: transition_weight_def py_div_nonzero fcard_0_eq)

lemma transition_loop_key:
  assumes "N \<noteq> 0"
  shows "distinct (map fst rest) \<Longrightarrow> fst ` set rest \<inter> fst ` set acc = {} \<Longrightarrow>
    efold (transition_step N (Some pl) page d) rest acc =
      Inr (acc @ map (\<lambda>item. (fst item, weight_of N pl page d item)) rest)"
proof (induction rest arbitrary: acc)
  case Nil
  then show ?case by simp
next
  case (Cons a rest)
  have fresh: "fst a \<notin> fst ` set acc" using Cons.prems by auto
  have step: "transition_step N (Some pl) page d a acc = Inr (acc @ [(fst a, weight_of N pl page d a)])"
    using assms fresh by (simp add: transition_step_def transition_weight_key[of N pl page d "fst a" "snd a"] update_fresh)
  have "fst ` set rest \<inter> fst ` set (acc @ [(fst a, weight_of N pl page d a)]) = {}"
    using Cons.prems by auto
  with Cons step show ?case by simp
qed

text \<open>For a current page that is a key, \<^verbatim>\<open>transition_model\<close> raises nothing and stores
  \<open>weight_of\<close> for every page, in the order of the corpus.\<close>

lemma transition_model_key:
  assumes "distinct (map fst corpus)" and "map_of corpus page = Some pl"
  shows "transition_model corpus page d =
           Inr (map (\<lambda>item. (fst item, weight_of (length corpus) pl page d item)) corpus)"
proof -
  have "corpus \<noteq> []" using assms(2) by auto
  then have "length corpus \<noteq> 0" by simp
  from transition_loop_key[OF this, of corpus "[]" pl page d] assms show ?thesis
    by (simp add: transition_model_def)
qed

lemma transition_loop_nokey_dangling:
  assumes "N \<noteq> 0"
  shows "distinct (map fst rest) \<Longrightarrow> fst ` set rest \<inter> fst ` set acc = {} \<Longrightarrow>
    page \<notin> fst ` set rest \<Longrightarrow> list_all (\<lambda>item. snd item = {||}) rest \<Longrightarrow>
    efold (transition_step N None page d) rest acc =
      Inr (acc @ map (\<lambda>item. (fst item, 1 / of_nat N)) rest)"
proof (induction rest arbitrary: acc)
  case Nil
  then show ?case by simp
next
  case (Cons a rest)
  have fresh: "fst a \<notin> fst ` set acc" using Cons.prems by auto
  have "fst a \<noteq> page" "snd a = {||}" using Cons.prems by auto
  then have step: "transition_step N None page d a acc = Inr (acc @ [(fst a, 1 / of_nat N)])"
    using assms fresh by (simp add: transition_step_def transition_weight_nokey update_fresh)
  have "fst ` set rest \<inter> fst ` set (acc @ [(fst a, 1 / rat_of_nat N)]) = {}"
    using Cons.prems by auto
  with Cons step show ?case by simp
qed

lemma transition_loop_nokey_linked:
  assumes "N \<noteq> 0"
  shows "page \<notin> fst ` set rest \<Longrightarrow> \<not> list_all (\<lambda>item. snd item = {||}) rest \<Longrightarrow>
    efold (transition_step N None page d) rest acc = Inl TypeError"
proof (induction rest arbitrary: acc)
  case Nil
  then show ?case by simp
next
  case (Cons a rest)
  have ne: "fst a \<noteq> page" using Cons.prems by auto
  show ?case
  proof (cases "snd a = {||}")
    case True
    then have "\<not> list_all (\<lambda>item. snd item = {||}) rest" using Cons.prems by simp
    moreover have "page \<notin> fst ` set rest" using Cons.prems by auto
    ultimately have "\<And>acc. efold (transition_step N None page d) rest acc = Inl TypeError"
      using Cons.IH by blast
    moreover have "transition_step N None page d a acc = Inr (AList.update (fst a) (1 / of_nat N) acc)"
      using assms ne True by (simp add: transition_step_def transition_weight_nokey)
    ultimately show ?thesis by simp
  next
    case False
    then show ?thesis using assms ne
      by (simp add: transition_step_def transition_weight_nokey)
  qed
qed

text \<open>For a current page that is no key, the first page with a link raises TypeError.\<close>

lemma transition_model_nokey:
  assumes "distinct (map fst corpus)" and "page \<notin> fst ` set corpus"
  shows "transition_model corpus page d =
           (if list_all (\<lambda>item. snd item = {||}) corpus
            then Inr (map (\<lambda>item. (fst item, 1 / of_nat (length corpus))) corpus)
            else Inl TypeError)"
proof (cases "corpus = []")
  case True
  then show ?thesis by (simp add: transition_model_def)
next
  case False
  then have N: "length corpus \<noteq> 0" by simp
  have none: "map_of corpus page = None" using assms(2) by (simp add: map_of_eq_None_iff)
  show ?thesis
    using transition_loop_nokey_dangling[OF N, of corpus "[]" page d]
      transition_loop_nokey_linked[OF N, of page corpus d "[]"] assms
    by (simp add: transition_model_def none)
qed

lemma transition_model_AB_A:
  "transition_model corpus_AB ''A'' (17/20) = Inr [(''A'', 3/40), (''B'', 1/2)]"
  by (simp add: transition_model_def transition_step_def transition_weight_def corpus_AB_def
      py_div_def fcard_finsert_if)

lemma transition_model_AB_B:
  "transition_model corpus_AB ''B'' (17/20) = Inr [(''A'', 3/40), (''B'', 1/2)]"
  by (simp add: transition_model_def transition_step_def transition_weight_def corpus_AB_def
      py_div_def fcard_finsert_if)

lemma corpus_AB_graph:
  "corpus_AB \<noteq> [] \<and> distinct (map fst corpus_AB) \<and> links_in_corpus corpus_AB \<and>
   no_self_links corpus_AB"
  by (simp add: corpus_AB_def links_in_corpus_def no_self_links_def)

lemma corpus_AB_lookup:
  "map_of corpus_AB ''A'' = Some {|''B''|} \<and> map_of corpus_AB ''B'' = Some {||} \<and>
   length corpus_AB = 2"
  by (simp add: corpus_AB_def)

lemma transition_model_AB_B_half:
  "transition_model corpus_AB ''B'' (1 / 2) = Inr [(''A'', 1 / 4), (''B'', 1 / 2)]"
  by (simp add: transition_model_def transition_step_def transition_weight_def corpus_AB_def
      py_div_def fcard_finsert_if)

text \<open>
  Claim C1 says that for every non-empty graph that satisfies the Graph invariant, every
  page that is a key and every damping factor in (0,1), the values \<^verbatim>\<open>transition_model\<close>
  returns sum to 1. The code does not do that: on the corpus \<^verbatim>\<open>{"A": {"B"}, "B": set()}\<close>
  (non-empty, every link target a key), current page \<^verbatim>\<open>A\<close> and damping factor 0.85 it
  returns \<^verbatim>\<open>{"A": 0.075, "B": 0.5}\<close>, whose values sum to 0.575. The dangling page
  \<^verbatim>\<open>B\<close> gets 1/N because the test for an empty link set is made on the page the loop
  is at, and so loses the share 0.85 that the link from \<^verbatim>\<open>A\<close> gives it.
\<close>

theorem transition_model_mass_defect:
  "corpus_AB \<noteq> [] \<and> links_in_corpus corpus_AB \<and> map_of corpus_AB ''A'' = Some {|''B''|} \<and>
   transition_model corpus_AB ''A'' (17 / 20) = Inr [(''A'', 3 / 40), (''B'', 1 / 2)] \<and>
   total_mass [(''A'', 3 / 40), (''B'', 1 / 2)] = 23 / 40"
  using corpus_AB_graph corpus_AB_lookup transition_model_AB_A
  by (simp add: total_mass_def)

text \<open>
  Claim C2 says that for a current page with no outbound links \<^verbatim>\<open>transition_model\<close>
  gives every page exactly 1/N, whatever the damping factor. The code does not do that: on
  the corpus \<^verbatim>\<open>{"A": {"B"}, "B": set()}\<close> with the dangling page \<^verbatim>\<open>B\<close> as current page,
  page \<^verbatim>\<open>A\<close> gets (1-d)/N, which is 0.075 for d = 0.85 and 0.25 for d = 0.5, and not
  1/N = 0.5; only the pages that are dangling themselves get 1/N.
\<close>

theorem transition_model_dangling_defect:
  "map_of corpus_AB ''B'' = Some {||} \<and>
   transition_model corpus_AB ''B'' (17 / 20) = Inr [(''A'', 3 / 40), (''B'', 1 / 2)] \<and>
   transition_model corpus_AB ''B'' (1 / 2) = Inr [(''A'', 1 / 4), (''B'', 1 / 2)] \<and>
   1 / rat_of_nat (length corpus_AB) = 1 / 2"
  using corpus_AB_lookup transition_model_AB_B transition_model_AB_B_half
  by simp

text \<open>
  Claim C3 says that for a current page with L > 0 outbound links \<^verbatim>\<open>transition_model\<close>
  gives (1-d)/N to every page outside the current page's links and (1-d)/N + d/L to every
  page among them. The code does not do that for a linked page that is dangling: on the
  corpus \<^verbatim>\<open>{"A": {"B"}, "B": set()}\<close> with current page \<^verbatim>\<open>A\<close> (L = 1) and d = 0.85, the
  linked page \<^verbatim>\<open>B\<close> gets 1/N = 0.5, where (1-d)/N + d/L is 0.925.
\<close>

theorem transition_model_linked_defect:
  "map_of corpus_AB ''A'' = Some {|''B''|} \<and>
   transition_model corpus_AB ''A'' (17 / 20) = Inr [(''A'', 3 / 40), (''B'', 1 / 2)] \<and>
   (1 - 17 / 20) / rat_of_nat (length corpus_AB) + (17 / 20) / rat_of_nat (fcard {|''B''|}) = 37 / 40"
  using corpus_AB_lookup transition_model_AB_A
  by (simp add: fcard_finsert_if fcard_fempty)

section \<open>iterate_pagerank: one sweep of the code is the synchronous update\<close>

lemma getitem_Some: "map_of d k = Some v \<Longrightarrow> getitem d k = Inr v"
  by (simp add: getitem_def)

lemma map_of_key: "k \<in> fst ` set d \<Longrightarrow> \<exists>v. map_of d k = Some v"
  by (cases "map_of d k") (auto simp: map_of_eq_None_iff)

lemma getitem_rank_of: "k \<in> fst ` set d \<Longrightarrow> getitem d k = Inr (rank_of d k)"
  using map_of_key[of k d] by (auto simp: getitem_def rank_of_def)

lemma getitem_links_of: "k \<in> fst ` set d \<Longrightarrow> getitem d k = Inr (links_of d k)"
  using map_of_key[of k d] by (auto simp: getitem_def links_of_def)

lemma add_contribution_ok:
  assumes "q \<in> fst ` set corpus" and "q \<in> fst ` set pagerank"
  shows "add_contribution corpus pagerank page q t = Inr (t + contribution corpus pagerank page q)"
proof -
  have N: "rat_of_nat (length corpus) \<noteq> 0" using assms(1) by auto
  have L: "page |\<in>| links_of corpus q \<Longrightarrow> rat_of_nat (fcard (links_of corpus q)) \<noteq> 0"
    using fcard_pos_of_mem[of page "links_of corpus q"] by simp
  show ?thesis
    using assms N L
    by (auto simp: add_contribution_def contribution_def getitem_rank_of getitem_links_of
        py_div_nonzero fcard_0_eq)
qed

lemma total_loop_ok:
  "set qs \<subseteq> fst ` set corpus \<Longrightarrow> set qs \<subseteq> fst ` set pagerank \<Longrightarrow>
   efold (add_contribution corpus pagerank page) qs t =
     Inr (t + sum_list (map (contribution corpus pagerank page) qs))"
  by (induction qs arbitrary: t) (simp_all add: add_contribution_ok add.assoc)

lemma new_rank_step_ok:
  assumes "corpus \<noteq> []" and "fst ` set corpus \<subseteq> fst ` set pagerank"
  shows "new_rank_step corpus d pagerank page new_rank =
           Inr (AList.update page (new_rank_value corpus d pagerank page) new_rank)"
proof -
  have "efold (add_contribution corpus pagerank page) (map fst corpus) 0 =
          Inr (0 + sum_list (map (contribution corpus pagerank page) (map fst corpus)))"
    using assms(2) by (intro total_loop_ok) auto
  moreover have "rat_of_nat (length corpus) \<noteq> 0" using assms(1) by simp
  ultimately show ?thesis
    by (simp add: new_rank_step_def new_rank_value_def py_div_nonzero)
qed

lemma new_rank_loop_ok:
  assumes "corpus \<noteq> []" and "fst ` set corpus \<subseteq> fst ` set pagerank"
  shows "efold (new_rank_step corpus d pagerank) ps new_rank =
           Inr (fold (\<lambda>p. AList.update p (new_rank_value corpus d pagerank p)) ps new_rank)"
  by (induction ps arbitrary: new_rank) (simp_all add: new_rank_step_ok[OF assms])

lemma map_of_fold_update:
  "map_of (fold (\<lambda>p. AList.update p (f p)) ps al) k =
     (if k \<in> set ps then Some (f k) else map_of al k)"
  by (induction ps arbitrary: al) (auto simp: update_conv')

lemma rank_of_update_other: "k \<noteq> p \<Longrightarrow> rank_of (AList.update p v al) k = rank_of al k"
  by (simp add: rank_of_def update_conv')

lemma commit_step_ok:
  assumes "p \<in> fst ` set pagerank" and "map_of new_rank p = Some v"
  shows "commit_step new_rank p (stop, pagerank) =
           Inr (stop \<and> abs (rank_of pagerank p - v) \<le> 1 / 1000, AList.update p v pagerank)"
  using assms by (auto simp: commit_step_def getitem_rank_of getitem_Some)

lemma commit_loop_ok:
  assumes nr: "\<And>p. p \<in> set ps \<Longrightarrow> map_of new_rank p = Some (f p)"
  shows "distinct ps \<Longrightarrow> set ps \<subseteq> fst ` set pagerank \<Longrightarrow>
     efold (commit_step new_rank) ps (stop, pagerank) =
       Inr (stop \<and> list_all (\<lambda>p. abs (rank_of pagerank p - f p) \<le> 1 / 1000) ps,
            fold (\<lambda>p. AList.update p (f p)) ps pagerank)"
  using nr
proof (induction ps arbitrary: stop pagerank)
  case Nil
  then show ?case by simp
next
  case (Cons p ps)
  let ?pr = "AList.update p (f p) pagerank"
  have step: "commit_step new_rank p (stop, pagerank) =
      Inr (stop \<and> abs (rank_of pagerank p - f p) \<le> 1 / 1000, ?pr)"
    using Cons.prems by (intro commit_step_ok) auto
  have keys: "set ps \<subseteq> fst ` set ?pr"
    using Cons.prems(2) by (auto simp: update_keys[of p "f p" pagerank] simp flip: set_map)
  have same: "list_all (\<lambda>q. abs (rank_of ?pr q - f q) \<le> 1 / 1000) ps =
              list_all (\<lambda>q. abs (rank_of pagerank q - f q) \<le> 1 / 1000) ps"
  proof -
    have "\<And>q. q \<in> set ps \<Longrightarrow> rank_of ?pr q = rank_of pagerank q"
      using Cons.prems(1) by (intro rank_of_update_other) auto
    then show ?thesis by (simp add: list_all_iff)
  qed
  have "efold (commit_step new_rank) ps (stop \<and> abs (rank_of pagerank p - f p) \<le> 1 / 1000, ?pr) =
      Inr ((stop \<and> abs (rank_of pagerank p - f p) \<le> 1 / 1000) \<and>
             list_all (\<lambda>q. abs (rank_of ?pr q - f q) \<le> 1 / 1000) ps,
           fold (\<lambda>p. AList.update p (f p)) ps ?pr)"
    using Cons.prems keys by (intro Cons.IH) auto
  with step same show ?case by (simp add: conj_assoc)
qed

lemma update_middle:
  "k \<notin> fst ` set pre \<Longrightarrow> AList.update k v (pre @ (k, x) # suf) = pre @ (k, v) # suf"
  by (induction pre) auto

lemma fold_update_all_aux:
  "distinct (map fst (pre @ suf)) \<Longrightarrow>
   fold (\<lambda>p. AList.update p (f p)) (map fst suf) (pre @ suf) =
     pre @ map (\<lambda>item. (fst item, f (fst item))) suf"
proof (induction suf arbitrary: pre)
  case Nil
  then show ?case by simp
next
  case (Cons a suf)
  have fresh: "fst a \<notin> fst ` set pre" using Cons.prems by auto
  have "AList.update (fst a) (f (fst a)) (pre @ a # suf) = (pre @ [(fst a, f (fst a))]) @ suf"
    using update_middle[OF fresh, of "f (fst a)" "snd a" suf] by simp
  moreover have "distinct (map fst ((pre @ [(fst a, f (fst a))]) @ suf))"
    using Cons.prems by auto
  ultimately show ?case using Cons.IH[of "pre @ [(fst a, f (fst a))]"] by simp
qed

lemma fold_update_all:
  "distinct (map fst al) \<Longrightarrow>
   fold (\<lambda>p. AList.update p (f p)) (map fst al) al = map (\<lambda>item. (fst item, f (fst item))) al"
  using fold_update_all_aux[of "[]" al f] by simp

lemma rank_of_map_key:
  "p \<in> fst ` set al \<Longrightarrow> rank_of (map (\<lambda>item. (fst item, f (fst item))) al) p = f p"
proof -
  assume "p \<in> fst ` set al"
  then have "map_of (map (\<lambda>item. (fst item, f (fst item))) al) p = Some (f p)"
    by (induction al) auto
  then show ?thesis by (simp add: rank_of_def)
qed

lemma sweep_ok:
  assumes d: "distinct (map fst corpus)" and k: "map fst pagerank = map fst corpus"
  shows "\<exists>new_rank'. sweep corpus damping_factor pagerank new_rank =
           Inr (converged pagerank (synchronous_sweep corpus damping_factor pagerank),
                synchronous_sweep corpus damping_factor pagerank, new_rank')"
proof (cases "corpus = []")
  case True
  with k show ?thesis by (simp add: sweep_def converged_def synchronous_sweep_def)
next
  case False
  let ?f = "new_rank_value corpus damping_factor pagerank"
  let ?nr = "fold (\<lambda>p. AList.update p (?f p)) (map fst pagerank) new_rank"
  have sub: "fst ` set corpus \<subseteq> fst ` set pagerank"
    using k by (metis list.set_map subset_refl)
  have p1: "efold (new_rank_step corpus damping_factor pagerank) (map fst pagerank) new_rank = Inr ?nr"
    by (rule new_rank_loop_ok[OF False sub])
  have dp: "distinct (map fst pagerank)" using d k by simp
  have p2: "efold (commit_step ?nr) (map fst pagerank) (True, pagerank) =
      Inr (True \<and> list_all (\<lambda>p. abs (rank_of pagerank p - ?f p) \<le> 1 / 1000) (map fst pagerank),
           fold (\<lambda>p. AList.update p (?f p)) (map fst pagerank) pagerank)"
    using dp by (intro commit_loop_ok) (auto simp: map_of_fold_update)
  have conv: "list_all (\<lambda>p. abs (rank_of pagerank p - ?f p) \<le> 1 / 1000) (map fst pagerank) =
      converged pagerank (synchronous_sweep corpus damping_factor pagerank)"
    by (auto simp: converged_def synchronous_sweep_def list_all_iff rank_of_map_key)
  show ?thesis
    using p1 p2 conv fold_update_all[OF dp, of ?f]
    by (simp add: sweep_def synchronous_sweep_def)
qed

lemma init_loop_ok:
  assumes "corpus \<noteq> []"
  shows "efold (init_step corpus) ps pagerank =
     Inr (fold (\<lambda>p. AList.update p (1 / of_nat (length corpus))) ps pagerank)"
  using assms by (induction ps arbitrary: pagerank) (simp_all add: init_step_def py_div_nonzero)

lemma fold_update_fresh:
  "distinct (map fst al) \<Longrightarrow> fst ` set al \<inter> fst ` set acc = {} \<Longrightarrow>
   fold (\<lambda>p. AList.update p (f p)) (map fst al) acc = acc @ map (\<lambda>item. (fst item, f (fst item))) al"
proof (induction al arbitrary: acc)
  case Nil
  then show ?case by simp
next
  case (Cons a al)
  have "fst a \<notin> fst ` set acc" using Cons.prems by auto
  then have "AList.update (fst a) (f (fst a)) acc = acc @ [(fst a, f (fst a))]"
    by (rule update_fresh)
  moreover have "fst ` set al \<inter> fst ` set (acc @ [(fst a, f (fst a))]) = {}"
    using Cons.prems by auto
  ultimately show ?case using Cons.IH[of "acc @ [(fst a, f (fst a))]"] Cons.prems by simp
qed

lemma init_pagerank_ok:
  assumes "distinct (map fst corpus)"
  shows "init_pagerank corpus = Inr (uniform_ranks corpus)"
proof (cases "corpus = []")
  case True
  then show ?thesis by (simp add: init_pagerank_def uniform_ranks_def)
next
  case False
  show ?thesis
    using init_loop_ok[OF False, of "map fst corpus" "[]"]
      fold_update_fresh[OF assms, of "[]" "\<lambda>_. 1 / of_nat (length corpus)"]
    by (simp add: init_pagerank_def uniform_ranks_def)
qed

section \<open>iterate_pagerank: when the loop returns\<close>

lemma keys_synchronous_sweep [simp]: "map fst (synchronous_sweep corpus d pr) = map fst pr"
  by (simp add: synchronous_sweep_def comp_def)

lemma keys_funpow_sweep [simp]: "map fst ((synchronous_sweep corpus d ^^ k) pr) = map fst pr"
  by (induction k) simp_all

lemma loop_returns:
  assumes d: "distinct (map fst corpus)"
  shows "map fst pr = map fst corpus \<Longrightarrow>
    converged ((synchronous_sweep corpus df ^^ k) pr) ((synchronous_sweep corpus df ^^ Suc k) pr) \<Longrightarrow>
    (\<And>j. j < k \<Longrightarrow>
       \<not> converged ((synchronous_sweep corpus df ^^ j) pr) ((synchronous_sweep corpus df ^^ Suc j) pr)) \<Longrightarrow>
    iterate_loop corpus df pr nr = Some (Inr ((synchronous_sweep corpus df ^^ Suc k) pr))"
proof (induction k arbitrary: pr nr)
  case 0
  obtain nr' where "sweep corpus df pr nr =
      Inr (converged pr (synchronous_sweep corpus df pr), synchronous_sweep corpus df pr, nr')"
    using sweep_ok[OF d "0.prems"(1)] by blast
  then show ?case using "0.prems"(2) by (subst iterate_loop.simps) simp
next
  case (Suc k)
  let ?pr = "synchronous_sweep corpus df pr"
  obtain nr' where sw: "sweep corpus df pr nr = Inr (converged pr ?pr, ?pr, nr')"
    using sweep_ok[OF d Suc.prems(1)] by blast
  have nc: "\<not> converged pr ?pr" using Suc.prems(3)[of 0] by simp
  have "iterate_loop corpus df ?pr nr' = Some (Inr ((synchronous_sweep corpus df ^^ Suc k) ?pr))"
  proof (rule Suc.IH)
    show "map fst ?pr = map fst corpus" using Suc.prems(1) by simp
    show "converged ((synchronous_sweep corpus df ^^ k) ?pr) ((synchronous_sweep corpus df ^^ Suc k) ?pr)"
      using Suc.prems(2) by (simp only: funpow_Suc_right comp_apply)
    show "\<not> converged ((synchronous_sweep corpus df ^^ j) ?pr) ((synchronous_sweep corpus df ^^ Suc j) ?pr)"
      if "j < k" for j
      using Suc.prems(3)[of "Suc j"] that by (simp only: funpow_Suc_right comp_apply) simp
  qed
  then have "iterate_loop corpus df ?pr nr' = Some (Inr ((synchronous_sweep corpus df ^^ Suc (Suc k)) pr))"
    by (simp only: funpow_Suc_right comp_apply)
  then show ?case using sw nc by (subst iterate_loop.simps) simp
qed

lemma loop_result:
  assumes "iterate_loop corpus df pr nr = Some res"
  shows "distinct (map fst corpus) \<longrightarrow> map fst pr = map fst corpus \<longrightarrow>
    (\<exists>k. res = Inr ((synchronous_sweep corpus df ^^ Suc k) pr) \<and>
       converged ((synchronous_sweep corpus df ^^ k) pr) ((synchronous_sweep corpus df ^^ Suc k) pr) \<and>
       (\<forall>j<k. \<not> converged ((synchronous_sweep corpus df ^^ j) pr)
                  ((synchronous_sweep corpus df ^^ Suc j) pr)))"
proof (rule iterate_loop.raw_induct[where P = "\<lambda>corpus df pr nr res.
    distinct (map fst corpus) \<longrightarrow> map fst pr = map fst corpus \<longrightarrow>
    (\<exists>k. res = Inr ((synchronous_sweep corpus df ^^ Suc k) pr) \<and>
       converged ((synchronous_sweep corpus df ^^ k) pr) ((synchronous_sweep corpus df ^^ Suc k) pr) \<and>
       (\<forall>j<k. \<not> converged ((synchronous_sweep corpus df ^^ j) pr)
                  ((synchronous_sweep corpus df ^^ Suc j) pr)))", OF _ assms], goal_cases)
  case (1 loop corpus df pr nr res)
  show ?case
  proof (intro impI)
    assume d: "distinct (map fst corpus)" and k: "map fst pr = map fst corpus"
    define S where "S = synchronous_sweep corpus df"
    define C where "C = (\<lambda>x i. converged ((S ^^ i) x) ((S ^^ Suc i) x))"
    obtain nr' where sw: "sweep corpus df pr nr = Inr (converged pr (S pr), S pr, nr')"
      using sweep_ok[OF d k] unfolding S_def by blast
    have body: "(if converged pr (S pr) then Some (Inr (S pr)) else loop corpus df (S pr) nr') = Some res"
      using "1"(2) by (simp only: sw sum.case prod.case)
    have shift: "(S ^^ i) (S pr) = (S ^^ Suc i) pr" for i
      by (simp only: funpow_Suc_right comp_apply)
    have C0: "C pr 0 = converged pr (S pr)" by (simp add: C_def)
    have CS: "C pr (Suc i) = C (S pr) i" for i
      unfolding C_def by (simp only: shift)
    have "\<exists>k. res = Inr ((S ^^ Suc k) pr) \<and> C pr k \<and> (\<forall>j<k. \<not> C pr j)"
    proof (cases "converged pr (S pr)")
      case True
      then have "res = Inr (S pr)" using body by simp
      then have "res = Inr ((S ^^ Suc 0) pr) \<and> C pr 0 \<and> (\<forall>j<0. \<not> C pr j)"
        using True C0 by simp
      then show ?thesis by (rule exI)
    next
      case False
      then have run: "loop corpus df (S pr) nr' = Some res" using body by simp
      have keys: "map fst (S pr) = map fst corpus" using k by (simp add: S_def)
      have "\<exists>k. res = Inr ((S ^^ Suc k) (S pr)) \<and> C (S pr) k \<and> (\<forall>j<k. \<not> C (S pr) j)"
        using "1"(1)[OF run] d keys unfolding S_def C_def by blast
      then obtain m where m1: "res = Inr ((S ^^ Suc m) (S pr))" and m2: "C (S pr) m"
        and m3: "\<forall>j<m. \<not> C (S pr) j"
        by blast
      have r: "res = Inr ((S ^^ Suc (Suc m)) pr)" using m1 by (simp only: shift)
      have c: "C pr (Suc m)" using m2 by (simp add: CS)
      have n: "\<not> C pr j" if "j < Suc m" for j
      proof (cases j)
        case 0
        then show ?thesis using False C0 by simp
      next
        case (Suc i)
        then have "i < m" using that by simp
        then have "\<not> C (S pr) i" using m3 by blast
        then have "\<not> C pr (Suc i)" by (simp add: CS)
        then show ?thesis using Suc by simp
      qed
      from r c n have "res = Inr ((S ^^ Suc (Suc m)) pr) \<and> C pr (Suc m) \<and> (\<forall>j<Suc m. \<not> C pr j)"
        by blast
      then show ?thesis by (rule exI)
    qed
    then show "\<exists>k. res = Inr ((synchronous_sweep corpus df ^^ Suc k) pr) \<and>
       converged ((synchronous_sweep corpus df ^^ k) pr) ((synchronous_sweep corpus df ^^ Suc k) pr) \<and>
       (\<forall>j<k. \<not> converged ((synchronous_sweep corpus df ^^ j) pr)
                  ((synchronous_sweep corpus df ^^ Suc j) pr))"
      unfolding S_def C_def .
  qed
qed

lemma sweeps_0: "sweeps corpus d 0 = uniform_ranks corpus"
  by (simp add: sweeps_def)

lemma sweeps_Suc: "sweeps corpus d (Suc k) = synchronous_sweep corpus d (sweeps corpus d k)"
  by (simp add: sweeps_def)

lemma keys_uniform_ranks [simp]: "map fst (uniform_ranks corpus) = map fst corpus"
  by (simp add: uniform_ranks_def comp_def)

lemma iterate_pagerank_returns:
  assumes "distinct (map fst corpus)" and "stops_at corpus d k"
  shows "iterate_pagerank corpus d = Some (Inr (sweeps corpus d (Suc k)))"
proof -
  have "iterate_loop corpus d (uniform_ranks corpus) [] =
          Some (Inr ((synchronous_sweep corpus d ^^ Suc k) (uniform_ranks corpus)))"
  proof (rule loop_returns[OF assms(1)])
    show "map fst (uniform_ranks corpus) = map fst corpus" by simp
    show "converged ((synchronous_sweep corpus d ^^ k) (uniform_ranks corpus))
           ((synchronous_sweep corpus d ^^ Suc k) (uniform_ranks corpus))"
      using assms(2) unfolding stops_at_def sweeps_def by blast
    show "\<not> converged ((synchronous_sweep corpus d ^^ j) (uniform_ranks corpus))
           ((synchronous_sweep corpus d ^^ Suc j) (uniform_ranks corpus))" if "j < k" for j
      using assms(2) that unfolding stops_at_def sweeps_def by (simp add: list_all_iff)
  qed
  then show ?thesis
    unfolding sweeps_def by (simp add: iterate_pagerank_def init_pagerank_ok[OF assms(1)])
qed

lemma iterate_pagerank_result:
  assumes "distinct (map fst corpus)" and "iterate_pagerank corpus d = Some res"
  shows "\<exists>k. stops_at corpus d k \<and> res = Inr (sweeps corpus d (Suc k))"
proof -
  have "iterate_loop corpus d (uniform_ranks corpus) [] = Some res"
    using assms by (simp add: iterate_pagerank_def init_pagerank_ok)
  from loop_result[OF this] assms(1) show ?thesis
    unfolding stops_at_def sweeps_def by (auto simp: list_all_iff)
qed

text \<open>The first round of the loop on the two-page corpus, computed from the code as it is
  written (without the closed form).\<close>

lemma init_pagerank_AB: "init_pagerank corpus_AB = Inr [(''A'', 1 / 2), (''B'', 1 / 2)]"
  by (simp add: init_pagerank_def init_step_def py_div_def corpus_AB_def)

lemma sweep_AB_literal:
  "sweep corpus_AB (17 / 20) [(''A'', 1 / 2), (''B'', 1 / 2)] [] =
     Inr (False, [(''A'', 23 / 80), (''B'', 57 / 80)], [(''A'', 23 / 80), (''B'', 57 / 80)])"
  by (simp add: sweep_def new_rank_step_def add_contribution_def commit_step_def getitem_def
      py_div_def corpus_AB_def fcard_finsert_if fcard_fempty)

text \<open>The eight sweeps on the two-page corpus, by the closed form.\<close>

lemma synchronous_sweep_AB:
  "synchronous_sweep corpus_AB (17 / 20) [(''A'', a), (''B'', b)] =
     [(''A'', 3 / 40 + 17 / 20 * (b / 2)), (''B'', 3 / 40 + 17 / 20 * (a + b / 2))]"
  by (simp add: synchronous_sweep_def new_rank_value_def contribution_def links_of_def rank_of_def
      corpus_AB_def fcard_finsert_if fcard_fempty)

lemma converged_AB:
  "converged [(''A'', a), (''B'', b)] [(''A'', a'), (''B'', b')] =
     (abs (a - a') \<le> 1 / 1000 \<and> abs (b - b') \<le> 1 / 1000)"
  by (simp add: converged_def rank_of_def)

lemma sweeps_AB_0: "sweeps corpus_AB (17 / 20) 0 = [(''A'', 1 / 2), (''B'', 1 / 2)]"
  by (simp add: sweeps_0 uniform_ranks_def corpus_AB_def)

lemma sweeps_AB_1:
  "sweeps corpus_AB (17 / 20) 1 = [(''A'', 23 / 80), (''B'', 57 / 80)]"
proof -
  have "sweeps corpus_AB (17 / 20) 1 =
      synchronous_sweep corpus_AB (17 / 20) (sweeps corpus_AB (17 / 20) 0)"
    by (simp add: sweeps_Suc)
  then show ?thesis by (simp only: sweeps_AB_0 synchronous_sweep_AB) simp
qed

lemma sweeps_AB_2:
  "sweeps corpus_AB (17 / 20) 2 = [(''A'', 1209 / 3200), (''B'', 1991 / 3200)]"
proof -
  have "(2::nat) = Suc 1" by simp
  then have "sweeps corpus_AB (17 / 20) 2 =
      synchronous_sweep corpus_AB (17 / 20) (sweeps corpus_AB (17 / 20) 1)"
    by (simp only: sweeps_Suc)
  then show ?thesis by (simp only: sweeps_AB_1 synchronous_sweep_AB) simp
qed

lemma sweeps_AB_3:
  "sweeps corpus_AB (17 / 20) 3 = [(''A'', 43447 / 128000), (''B'', 84553 / 128000)]"
proof -
  have "(3::nat) = Suc 2" by simp
  then have "sweeps corpus_AB (17 / 20) 3 =
      synchronous_sweep corpus_AB (17 / 20) (sweeps corpus_AB (17 / 20) 2)"
    by (simp only: sweeps_Suc)
  then show ?thesis by (simp only: sweeps_AB_2 synchronous_sweep_AB) simp
qed

lemma sweeps_AB_4:
  "sweeps corpus_AB (17 / 20) 4 = [(''A'', 1821401 / 5120000), (''B'', 3298599 / 5120000)]"
proof -
  have "(4::nat) = Suc 3" by simp
  then have "sweeps corpus_AB (17 / 20) 4 =
      synchronous_sweep corpus_AB (17 / 20) (sweeps corpus_AB (17 / 20) 3)"
    by (simp only: sweeps_Suc)
  then show ?thesis by (simp only: sweeps_AB_3 synchronous_sweep_AB) simp
qed

lemma sweeps_AB_5:
  "sweeps corpus_AB (17 / 20) 5 = [(''A'', 71436183 / 204800000), (''B'', 133363817 / 204800000)]"
proof -
  have "(5::nat) = Suc 4" by simp
  then have "sweeps corpus_AB (17 / 20) 5 =
      synchronous_sweep corpus_AB (17 / 20) (sweeps corpus_AB (17 / 20) 4)"
    by (simp only: sweeps_Suc)
  then show ?thesis by (simp only: sweeps_AB_4 synchronous_sweep_AB) simp
qed

lemma sweeps_AB_6:
  "sweeps corpus_AB (17 / 20) 6 = [(''A'', 2881584889 / 8192000000), (''B'', 5310415111 / 8192000000)]"
proof -
  have "(6::nat) = Suc 5" by simp
  then have "sweeps corpus_AB (17 / 20) 6 =
      synchronous_sweep corpus_AB (17 / 20) (sweeps corpus_AB (17 / 20) 5)"
    by (simp only: sweeps_Suc)
  then show ?thesis by (simp only: sweeps_AB_5 synchronous_sweep_AB) simp
qed

lemma sweeps_AB_7:
  "sweeps corpus_AB (17 / 20) 7 = [(''A'', 114853056887 / 327680000000), (''B'', 212826943113 / 327680000000)]"
proof -
  have "(7::nat) = Suc 6" by simp
  then have "sweeps corpus_AB (17 / 20) 7 =
      synchronous_sweep corpus_AB (17 / 20) (sweeps corpus_AB (17 / 20) 6)"
    by (simp only: sweeps_Suc)
  then show ?thesis by (simp only: sweeps_AB_6 synchronous_sweep_AB) simp
qed

lemma sweeps_AB_8:
  "sweeps corpus_AB (17 / 20) 8 = [(''A'', 4601098032921 / 13107200000000), (''B'', 8506101967079 / 13107200000000)]"
proof -
  have "(8::nat) = Suc 7" by simp
  then have "sweeps corpus_AB (17 / 20) 8 =
      synchronous_sweep corpus_AB (17 / 20) (sweeps corpus_AB (17 / 20) 7)"
    by (simp only: sweeps_Suc)
  then show ?thesis by (simp only: sweeps_AB_7 synchronous_sweep_AB) simp
qed

lemma converged_AB_0:
  "converged (sweeps corpus_AB (17 / 20) 0) (sweeps corpus_AB (17 / 20) (Suc 0)) = False"
proof -
  have "Suc 0 = 1" by simp
  then show ?thesis by (simp only: sweeps_AB_0 sweeps_AB_1 converged_AB) simp
qed

lemma converged_AB_1:
  "converged (sweeps corpus_AB (17 / 20) 1) (sweeps corpus_AB (17 / 20) (Suc 1)) = False"
proof -
  have "Suc 1 = 2" by simp
  then show ?thesis by (simp only: sweeps_AB_1 sweeps_AB_2 converged_AB) simp
qed

lemma converged_AB_2:
  "converged (sweeps corpus_AB (17 / 20) 2) (sweeps corpus_AB (17 / 20) (Suc 2)) = False"
proof -
  have "Suc 2 = 3" by simp
  then show ?thesis by (simp only: sweeps_AB_2 sweeps_AB_3 converged_AB) simp
qed

lemma converged_AB_3:
  "converged (sweeps corpus_AB (17 / 20) 3) (sweeps corpus_AB (17 / 20) (Suc 3)) = False"
proof -
  have "Suc 3 = 4" by simp
  then show ?thesis by (simp only: sweeps_AB_3 sweeps_AB_4 converged_AB) simp
qed

lemma converged_AB_4:
  "converged (sweeps corpus_AB (17 / 20) 4) (sweeps corpus_AB (17 / 20) (Suc 4)) = False"
proof -
  have "Suc 4 = 5" by simp
  then show ?thesis by (simp only: sweeps_AB_4 sweeps_AB_5 converged_AB) simp
qed

lemma converged_AB_5:
  "converged (sweeps corpus_AB (17 / 20) 5) (sweeps corpus_AB (17 / 20) (Suc 5)) = False"
proof -
  have "Suc 5 = 6" by simp
  then show ?thesis by (simp only: sweeps_AB_5 sweeps_AB_6 converged_AB) simp
qed

lemma converged_AB_6:
  "converged (sweeps corpus_AB (17 / 20) 6) (sweeps corpus_AB (17 / 20) (Suc 6)) = False"
proof -
  have "Suc 6 = 7" by simp
  then show ?thesis by (simp only: sweeps_AB_6 sweeps_AB_7 converged_AB) simp
qed

lemma converged_AB_7:
  "converged (sweeps corpus_AB (17 / 20) 7) (sweeps corpus_AB (17 / 20) (Suc 7)) = True"
proof -
  have "Suc 7 = 8" by simp
  then show ?thesis by (simp only: sweeps_AB_7 sweeps_AB_8 converged_AB) simp
qed

lemma stops_at_AB: "stops_at corpus_AB (17 / 20) 7"
proof -
  have "[0..<7] = [0, 1, 2, 3, 4, 5, 6]"
    by (simp add: upt_rec)
  then show ?thesis
    unfolding stops_at_def
    by (simp only: list_all_Cons_iff converged_AB_0 converged_AB_1 converged_AB_2 converged_AB_3
        converged_AB_4 converged_AB_5 converged_AB_6 converged_AB_7) simp
qed

lemma iterate_pagerank_AB:
  "iterate_pagerank corpus_AB (17 / 20) =
     Some (Inr [(''A'', 4601098032921 / 13107200000000), (''B'', 8506101967079 / 13107200000000)])"
proof -
  have "Suc 7 = 8" by simp
  then show ?thesis
    using iterate_pagerank_returns[OF _ stops_at_AB] corpus_AB_graph
    by (simp only: sweeps_AB_8)
qed

section \<open>iterate_pagerank: the total rank\<close>

lemma total_mass_keys:
  "distinct (map fst pr) \<Longrightarrow> total_mass pr = sum (rank_of pr) (set (map fst pr))"
proof -
  assume d: "distinct (map fst pr)"
  have "rank_of pr (fst item) = snd item" if "item \<in> set pr" for item
  proof -
    have "(fst item, snd item) \<in> set pr" using that by simp
    then have "map_of pr (fst item) = Some (snd item)"
      using d by (simp only: map_of_eq_Some_iff)
    then show ?thesis by (simp add: rank_of_def)
  qed
  then have "map snd pr = map (rank_of pr) (map fst pr)" by simp
  then have "total_mass pr = sum_list (map (rank_of pr) (map fst pr))"
    by (simp only: total_mass_def)
  also have "\<dots> = sum (rank_of pr) (set (map fst pr))"
    using d by (rule sum_list_distinct_conv_sum_set)
  finally show ?thesis .
qed

lemma total_mass_map:
  "distinct (map fst pr) \<Longrightarrow>
   total_mass (map (\<lambda>item. (fst item, f (fst item))) pr) = sum f (set (map fst pr))"
proof -
  assume d: "distinct (map fst pr)"
  have "total_mass (map (\<lambda>item. (fst item, f (fst item))) pr) = sum_list (map f (map fst pr))"
    by (simp add: total_mass_def comp_def)
  also have "\<dots> = sum f (set (map fst pr))"
    using d by (rule sum_list_distinct_conv_sum_set)
  finally show ?thesis .
qed

lemma links_in_corpus_subset:
  "links_in_corpus corpus \<Longrightarrow> fset (links_of corpus q) \<subseteq> set (map fst corpus)"
proof (cases "map_of corpus q")
  case None
  then show ?thesis by (simp add: links_of_def)
next
  case (Some links)
  assume inv: "links_in_corpus corpus"
  have "(q, links) \<in> set corpus" using Some by (rule map_of_SomeD)
  moreover have "\<forall>item\<in>set corpus. snd item |\<subseteq>| fset_of_list (map fst corpus)"
    using inv by (simp only: links_in_corpus_def list_all_iff)
  ultimately have "snd (q, links) |\<subseteq>| fset_of_list (map fst corpus)"
    by blast
  then have "links |\<subseteq>| fset_of_list (map fst corpus)"
    by (simp only: snd_conv)
  then have "fset links \<subseteq> set (map fst corpus)"
    by (metis fset_of_list.rep_eq less_eq_fset.rep_eq)
  then show ?thesis using Some by (simp add: links_of_def)
qed

lemma count_members:
  assumes "fset L \<subseteq> K" and "finite K"
  shows "(\<Sum>p\<in>K. if p |\<in>| L then (1::rat) else 0) = of_nat (fcard L)"
proof -
  have "K \<inter> {p. p |\<in>| L} = fset L" using assms(1) by auto
  then show ?thesis
    using assms(2) by (simp add: sum.If_cases fcard.rep_eq)
qed

lemma contribution_column:
  assumes inv: "links_in_corpus corpus" and ne: "corpus \<noteq> []" and d: "distinct (map fst corpus)"
  shows "(\<Sum>p\<in>set (map fst corpus). contribution corpus pr p q) = rank_of pr q"
proof -
  let ?K = "set (map fst corpus)"
  let ?L = "links_of corpus q"
  have cardK: "card ?K = length corpus" using d by (metis distinct_card length_map)
  show ?thesis
  proof (cases "?L = {||}")
    case True
    then have "\<And>p. contribution corpus pr p q = rank_of pr q / of_nat (length corpus)"
      by (simp add: contribution_def)
    then have "(\<Sum>p\<in>?K. contribution corpus pr p q) = of_nat (card ?K) * (rank_of pr q / of_nat (length corpus))"
      by simp
    then show ?thesis using cardK ne by simp
  next
    case False
    then have pos: "rat_of_nat (fcard ?L) \<noteq> 0" by (simp add: fcard_0_eq)
    have "(\<Sum>p\<in>?K. contribution corpus pr p q) =
        (\<Sum>p\<in>?K. (if p |\<in>| ?L then 1 else 0) * (rank_of pr q / of_nat (fcard ?L)))"
      using False by (intro sum.cong) (simp_all add: contribution_def)
    also have "\<dots> =
        (\<Sum>p\<in>?K. if p |\<in>| ?L then 1 else 0) * (rank_of pr q / of_nat (fcard ?L))"
      by (rule sum_distrib_right[symmetric])
    also have "(\<Sum>p\<in>?K. if p |\<in>| ?L then (1::rat) else 0) = of_nat (fcard ?L)"
      using links_in_corpus_subset[OF inv, of q] by (intro count_members) auto
    finally show ?thesis using pos by simp
  qed
qed

lemma synchronous_sweep_mass:
  assumes d: "distinct (map fst corpus)" and inv: "links_in_corpus corpus" and ne: "corpus \<noteq> []"
    and k: "map fst pr = map fst corpus"
  shows "total_mass (synchronous_sweep corpus df pr) = (1 - df) + df * total_mass pr"
proof -
  let ?K = "set (map fst corpus)"
  have dp: "distinct (map fst pr)" using d k by simp
  have cardK: "card ?K = length corpus" using d by (metis distinct_card length_map)
  have N: "rat_of_nat (length corpus) \<noteq> 0" using ne by simp
  have nrv: "new_rank_value corpus df pr p =
      (1 - df) / of_nat (length corpus) + df * (\<Sum>q\<in>?K. contribution corpus pr p q)" for p
    using sum_list_distinct_conv_sum_set[OF d, of "contribution corpus pr p"]
    by (simp add: new_rank_value_def)
  have "total_mass (synchronous_sweep corpus df pr) = (\<Sum>p\<in>?K. new_rank_value corpus df pr p)"
    using total_mass_map[OF dp, of "new_rank_value corpus df pr"] k
    by (simp add: synchronous_sweep_def)
  also have "\<dots> = (\<Sum>p\<in>?K. (1 - df) / of_nat (length corpus)) +
      df * (\<Sum>p\<in>?K. \<Sum>q\<in>?K. contribution corpus pr p q)"
    by (simp add: nrv sum.distrib sum_distrib_left)
  also have "(\<Sum>p\<in>?K. (1 - df) / rat_of_nat (length corpus)) = 1 - df"
    using cardK N by simp
  also have "(\<Sum>p\<in>?K. \<Sum>q\<in>?K. contribution corpus pr p q) =
      (\<Sum>q\<in>?K. \<Sum>p\<in>?K. contribution corpus pr p q)"
    by (rule sum.swap)
  also have "\<dots> = (\<Sum>q\<in>?K. rank_of pr q)"
    by (simp only: contribution_column[OF inv ne d])
  also have "\<dots> = total_mass pr"
    using total_mass_keys[OF dp] k by simp
  finally show ?thesis .
qed

lemma uniform_ranks_mass: "corpus \<noteq> [] \<Longrightarrow> total_mass (uniform_ranks corpus) = 1"
  by (simp add: total_mass_def uniform_ranks_def comp_def sum_list_triv)

section \<open>iterate_pagerank: the claims\<close>

lemma sweeps_mass:
  assumes "distinct (map fst corpus)" and "links_in_corpus corpus" and "corpus \<noteq> []"
  shows "total_mass (sweeps corpus d k) = 1"
proof (induction k)
  case 0
  then show ?case using assms(3) by (simp add: sweeps_0 uniform_ranks_mass)
next
  case (Suc k)
  have "map fst (sweeps corpus d k) = map fst corpus"
    by (simp add: sweeps_def)
  from synchronous_sweep_mass[OF assms this, of d] Suc show ?case
    by (simp add: sweeps_Suc)
qed

text \<open>
  Claim C5 says that on the corpus \<^verbatim>\<open>{"A": {"B"}, "B": set()}\<close> with damping factor 0.85
  \<^verbatim>\<open>iterate_pagerank\<close> converges to \<^verbatim>\<open>{"A": 0.5, "B": 0.5}\<close> within 0.001. It does not:
  the function returns after eight sweeps, and both ranks it returns are further than
  0.001 from 0.5 (they are about 0.3510 and 0.6490).
\<close>

theorem iterate_pagerank_AB_not_half:
  "iterate_pagerank corpus_AB (17 / 20) =
     Some (Inr [(''A'', 4601098032921 / 13107200000000), (''B'', 8506101967079 / 13107200000000)]) \<and>
   \<not> abs (4601098032921 / 13107200000000 - 1 / 2 :: rat) \<le> 1 / 1000 \<and>
   \<not> abs (8506101967079 / 13107200000000 - 1 / 2 :: rat) \<le> 1 / 1000"
  using iterate_pagerank_AB by simp

lemma fixed_point_AB:
  "synchronous_sweep corpus_AB (17 / 20) [(''A'', 20 / 57), (''B'', 37 / 57)] =
     [(''A'', 20 / 57), (''B'', 37 / 57)]"
  by (simp only: synchronous_sweep_AB) simp

text \<open>
  Claim C5 as amended: on that corpus with damping factor 0.85 \<^verbatim>\<open>iterate_pagerank\<close>
  returns the ranks after eight sweeps (sweep 8 is the first to move no rank by more than
  0.001); the rank of \<^verbatim>\<open>A\<close> is within 0.001 of 20/57 and the rank of \<^verbatim>\<open>B\<close> within
  0.001 of 37/57, and \<^verbatim>\<open>{"A": 20/57, "B": 37/57}\<close> is a fixed point of the sweep.
\<close>

theorem iterate_pagerank_AB_steady:
  "iterate_pagerank corpus_AB (17 / 20) = Some (Inr (sweeps corpus_AB (17 / 20) 8)) \<and>
   stops_at corpus_AB (17 / 20) 7 \<and>
   sweeps corpus_AB (17 / 20) 8 =
     [(''A'', 4601098032921 / 13107200000000), (''B'', 8506101967079 / 13107200000000)] \<and>
   abs (4601098032921 / 13107200000000 - 20 / 57 :: rat) \<le> 1 / 1000 \<and>
   abs (8506101967079 / 13107200000000 - 37 / 57 :: rat) \<le> 1 / 1000 \<and>
   synchronous_sweep corpus_AB (17 / 20) [(''A'', 20 / 57), (''B'', 37 / 57)] =
     [(''A'', 20 / 57), (''B'', 37 / 57)]"
  using iterate_pagerank_AB stops_at_AB sweeps_AB_8 fixed_point_AB by simp

text \<open>
  Claim C10: the total rank is an invariant of the loop of \<^verbatim>\<open>iterate_pagerank\<close>. For a
  non-empty corpus with distinct keys whose link targets are all keys (the Graph invariant),
  and any damping factor: the initial ranks sum to 1; a round of the loop that starts from
  ranks over the keys of the corpus that sum to 1 ends with such ranks; so the ranks after
  any number of sweeps sum to 1, and so do the ranks the function returns.
\<close>

theorem total_mass_invariant:
  assumes "distinct (map fst corpus)" and "links_in_corpus corpus" and "corpus \<noteq> []"
  shows "(\<exists>pagerank. init_pagerank corpus = Inr pagerank \<and> total_mass pagerank = 1) \<and>
         (map fst pagerank = map fst corpus \<and> total_mass pagerank = 1 \<and>
          sweep corpus d pagerank new_rank = Inr (stop, pagerank', new_rank') \<longrightarrow>
            total_mass pagerank' = 1 \<and> map fst pagerank' = map fst corpus) \<and>
         (\<forall>k. total_mass (sweeps corpus d k) = 1) \<and>
         (iterate_pagerank corpus d = Some (Inr r) \<longrightarrow> total_mass r = 1)"
proof (intro conjI impI allI)
  show "\<exists>pagerank. init_pagerank corpus = Inr pagerank \<and> total_mass pagerank = 1"
    using init_pagerank_ok[OF assms(1)] uniform_ranks_mass[OF assms(3)] by simp
next
  assume a: "map fst pagerank = map fst corpus \<and> total_mass pagerank = 1 \<and>
          sweep corpus d pagerank new_rank = Inr (stop, pagerank', new_rank')"
  then have k: "map fst pagerank = map fst corpus" by simp
  from sweep_ok[OF assms(1) k, of d new_rank] a
  have p: "pagerank' = synchronous_sweep corpus d pagerank" by auto
  show "total_mass pagerank' = 1"
    using synchronous_sweep_mass[OF assms k, of d] a p by simp
  show "map fst pagerank' = map fst corpus" using p k by simp
next
  fix k show "total_mass (sweeps corpus d k) = 1" by (rule sweeps_mass[OF assms])
next
  assume "iterate_pagerank corpus d = Some (Inr r)"
  from iterate_pagerank_result[OF assms(1) this] obtain k where "r = sweeps corpus d (Suc k)"
    by auto
  then show "total_mass r = 1" by (simp only: sweeps_mass[OF assms])
qed

text \<open>Witness of C10 on the two-page corpus: the returned ranks and the ranks after three
  sweeps sum to 1.\<close>

theorem total_mass_invariant_witness:
  "distinct (map fst corpus_AB) \<and> links_in_corpus corpus_AB \<and> corpus_AB \<noteq> [] \<and>
   iterate_pagerank corpus_AB (17 / 20) =
     Some (Inr [(''A'', 4601098032921 / 13107200000000), (''B'', 8506101967079 / 13107200000000)]) \<and>
   total_mass [(''A'', 4601098032921 / 13107200000000), (''B'', 8506101967079 / 13107200000000)] = 1 \<and>
   total_mass (sweeps corpus_AB (17 / 20) 3) = 1"
proof -
  have g: "distinct (map fst corpus_AB)" "links_in_corpus corpus_AB" "corpus_AB \<noteq> []"
    using corpus_AB_graph by simp_all
  note t = total_mass_invariant[OF g, of _ "17 / 20" _ _ _ _
      "[(''A'', 4601098032921 / 13107200000000), (''B'', 8506101967079 / 13107200000000)]"]
  have "total_mass [(''A'', 4601098032921 / 13107200000000), (''B'', 8506101967079 / 13107200000000)] = 1"
    using t iterate_pagerank_AB by blast
  moreover have "total_mass (sweeps corpus_AB (17 / 20) 3) = 1" using t by blast
  ultimately show ?thesis using g iterate_pagerank_AB by blast
qed

section \<open>crawl: the Graph invariant\<close>

lemma links_of_update:
  "links_of (AList.update k v pg) q = (if q = k then v else links_of pg q)"
  by (simp add: links_of_def update_conv')

lemma keys_update_key:
  "k \<in> fst ` set pg \<Longrightarrow> map fst (AList.update k v pg) = map fst pg"
  by (simp add: update_keys)

lemma restrict_step_ok:
  "k \<in> fst ` set pg \<Longrightarrow>
   restrict_step k pg =
     Inr (AList.update k (ffilter (\<lambda>link. link \<in> set (map fst pg)) (links_of pg k)) pg)"
  by (simp add: restrict_step_def getitem_links_of)

lemma restrict_loop:
  "set ks \<subseteq> fst ` set pg \<Longrightarrow>
   \<exists>pg'. efold restrict_step ks pg = Inr pg' \<and> map fst pg' = map fst pg \<and>
     (\<forall>q. links_of pg' q |\<subseteq>| links_of pg q) \<and>
     (\<forall>q\<in>set ks. fset (links_of pg' q) \<subseteq> fst ` set pg)"
proof (induction ks arbitrary: pg)
  case Nil
  then show ?case by simp
next
  case (Cons k ks)
  let ?v = "ffilter (\<lambda>link. link \<in> set (map fst pg)) (links_of pg k)"
  let ?pg = "AList.update k ?v pg"
  have kin: "k \<in> fst ` set pg" using Cons.prems by simp
  have step: "restrict_step k pg = Inr ?pg" using kin by (rule restrict_step_ok)
  have keys: "map fst ?pg = map fst pg" using kin by (rule keys_update_key)
  then have keyset: "fst ` set ?pg = fst ` set pg" by (metis list.set_map)
  have "set ks \<subseteq> fst ` set ?pg" using Cons.prems keyset by simp
  from Cons.IH[OF this] obtain pg' where
    r: "efold restrict_step ks ?pg = Inr pg'" and
    k': "map fst pg' = map fst ?pg" and
    sub: "\<forall>q. links_of pg' q |\<subseteq>| links_of ?pg q" and
    fin: "\<forall>q\<in>set ks. fset (links_of pg' q) \<subseteq> fst ` set ?pg"
    by blast
  have v_sub: "?v |\<subseteq>| links_of pg k" by auto
  have v_keys: "fset ?v \<subseteq> fst ` set pg" by auto
  have sub': "links_of pg' q |\<subseteq>| links_of pg q" for q
  proof (cases "q = k")
    case True
    then have "links_of pg' q |\<subseteq>| ?v" using sub[rule_format, of q] by (simp add: links_of_update)
    then show ?thesis using v_sub True by (metis order_trans)
  next
    case False
    then show ?thesis using sub[rule_format, of q] by (simp add: links_of_update)
  qed
  have k_done: "fset (links_of pg' k) \<subseteq> fst ` set pg"
  proof -
    have "links_of pg' k |\<subseteq>| ?v" using sub[rule_format, of k] by (simp add: links_of_update)
    then have "fset (links_of pg' k) \<subseteq> fset ?v" by (simp add: less_eq_fset.rep_eq)
    then show ?thesis using v_keys by (rule subset_trans)
  qed
  have "efold restrict_step (k # ks) pg = Inr pg'" using step r by simp
  moreover have "map fst pg' = map fst pg" using k' keys by simp
  moreover have "\<forall>q\<in>set (k # ks). fset (links_of pg' q) \<subseteq> fst ` set pg"
    using fin k_done keyset by simp
  ultimately show ?case using sub' by blast
qed

lemma read_step_cases:
  "read_step read_file findall directory filename pages = Inr pages' \<Longrightarrow>
   pages' = pages \<or>
   (\<exists>contents. pages' =
      AList.update filename (fset_of_list (findall contents) |-| {|filename|}) pages)"
  by (auto simp: read_step_def ebind_def split: if_splits sum.splits)

lemma read_loop_inv:
  "efold (read_step read_file findall directory) filenames pages = Inr pages' \<Longrightarrow>
   distinct (map fst pages) \<Longrightarrow> (\<forall>q. q |\<notin>| links_of pages q) \<Longrightarrow>
   distinct (map fst pages') \<and> (\<forall>q. q |\<notin>| links_of pages' q)"
proof (induction filenames arbitrary: pages)
  case Nil
  then show ?case by simp
next
  case (Cons f fs)
  from Cons.prems(1) obtain mid where
    s: "read_step read_file findall directory f pages = Inr mid" and
    r: "efold (read_step read_file findall directory) fs mid = Inr pages'"
    by (auto simp: ebind_def split: sum.splits)
  have "distinct (map fst mid) \<and> (\<forall>q. q |\<notin>| links_of mid q)"
    using read_step_cases[OF s] Cons.prems(2,3)
    by (auto simp: distinct_update links_of_update split: if_splits)
  then show ?case using Cons.IH[OF r] by blast
qed

lemma links_of_item:
  "distinct (map fst pg) \<Longrightarrow> item \<in> set pg \<Longrightarrow> links_of pg (fst item) = snd item"
proof -
  assume d: "distinct (map fst pg)" and i: "item \<in> set pg"
  have "(fst item, snd item) \<in> set pg" using i by simp
  then have "map_of pg (fst item) = Some (snd item)" using d by (simp only: map_of_eq_Some_iff)
  then show ?thesis by (simp add: links_of_def)
qed

lemma crawl_result:
  assumes "crawl os_listdir read_file findall directory = Inr pages"
  shows "distinct (map fst pages) \<and> links_in_corpus pages \<and> no_self_links pages"
proof -
  from assms obtain filenames mid where
    l: "os_listdir directory = Inr filenames" and
    m: "efold (read_step read_file findall directory) filenames [] = Inr mid" and
    r: "efold restrict_step (map fst mid) mid = Inr pages"
    by (auto simp: crawl_def ebind_def split: sum.splits)
  have mid: "distinct (map fst mid) \<and> (\<forall>q. q |\<notin>| links_of mid q)"
    using read_loop_inv[OF m] by (simp add: links_of_def)
  have "set (map fst mid) \<subseteq> fst ` set mid" by simp
  from restrict_loop[OF this] r have
    keys: "map fst pages = map fst mid" and
    sub: "\<forall>q. links_of pages q |\<subseteq>| links_of mid q" and
    inside: "\<forall>q\<in>set (map fst mid). fset (links_of pages q) \<subseteq> fst ` set mid"
    by auto
  have d: "distinct (map fst pages)" using keys mid by simp
  have keyset: "fst ` set pages = fst ` set mid" using keys by (metis list.set_map)
  have "snd item |\<subseteq>| fset_of_list (map fst pages)" if "item \<in> set pages" for item
  proof -
    have "fst item \<in> set (map fst mid)" using that keyset by auto
    then have "fset (links_of pages (fst item)) \<subseteq> fst ` set mid"
      using inside by blast
    then have "fset (links_of pages (fst item)) \<subseteq> fst ` set pages"
      using keyset by simp
    then have "fset (snd item) \<subseteq> set (map fst pages)"
      using links_of_item[OF d that] by simp
    then show ?thesis by (simp add: less_eq_fset.rep_eq fset_of_list.rep_eq)
  qed
  then have a: "links_in_corpus pages" by (simp add: links_in_corpus_def list_all_iff)
  have "fst item |\<notin>| snd item" if "item \<in> set pages" for item
  proof -
    have "links_of pages (fst item) |\<subseteq>| links_of mid (fst item)" using sub by blast
    moreover have "fst item |\<notin>| links_of mid (fst item)" using mid by blast
    ultimately have "fst item |\<notin>| links_of pages (fst item)" by auto
    then show ?thesis using links_of_item[OF d that] by simp
  qed
  then have b: "no_self_links pages" by (simp add: no_self_links_def list_all_iff)
  show ?thesis using d a b by blast
qed

lemma read_loop_returns:
  "(\<And>f. f \<in> set filenames \<Longrightarrow> endswith f ''.html'' \<Longrightarrow> \<exists>c. read_file directory f = Inr c) \<Longrightarrow>
   \<exists>pages'. efold (read_step read_file findall directory) filenames pages = Inr pages'"
proof (induction filenames arbitrary: pages)
  case Nil
  then show ?case by simp
next
  case (Cons f fs)
  have "\<exists>mid. read_step read_file findall directory f pages = Inr mid"
  proof (cases "endswith f ''.html''")
    case True
    then obtain c where "read_file directory f = Inr c" using Cons.prems[of f] by auto
    then show ?thesis using True by (simp add: read_step_def)
  next
    case False
    then show ?thesis by (simp add: read_step_def)
  qed
  then obtain mid where s: "read_step read_file findall directory f pages = Inr mid" by blast
  have "\<exists>pages'. efold (read_step read_file findall directory) fs mid = Inr pages'"
    using Cons.prems by (intro Cons.IH) auto
  then show ?case using s by simp
qed

lemma crawl_returns:
  assumes "os_listdir directory = Inr filenames"
    and "\<And>f. f \<in> set filenames \<Longrightarrow> endswith f ''.html'' \<Longrightarrow> \<exists>c. read_file directory f = Inr c"
  shows "\<exists>pages. crawl os_listdir read_file findall directory = Inr pages"
proof -
  obtain mid where m: "efold (read_step read_file findall directory) filenames [] = Inr mid"
    using read_loop_returns[of filenames read_file directory findall "[]"] assms(2) by blast
  have "set (map fst mid) \<subseteq> fst ` set mid" by simp
  from restrict_loop[OF this] obtain pages where "efold restrict_step (map fst mid) mid = Inr pages"
    by blast
  then show ?thesis using assms(1) m by (simp add: crawl_def)
qed

lemma demo_first_loop:
  "efold (read_step demo_read demo_findall ''corpus'') [''1.html'', ''2.html'', ''notes.txt''] [] =
     Inr [(''1.html'', {|''2.html'', ''x.html''|}), (''2.html'', {|''1.html''|})]"
  by (simp add: read_step_def endswith_def demo_read_def demo_findall_def) auto

lemma demo_crawl:
  "crawl demo_listdir demo_read demo_findall ''corpus'' =
     Inr [(''1.html'', {|''2.html''|}), (''2.html'', {|''1.html''|})]"
  by (simp only: crawl_def demo_listdir_def ebind_Inr demo_first_loop)
    (auto simp: restrict_step_def getitem_def)

text \<open>
  Claim C9: for every directory, the mapping \<^verbatim>\<open>crawl\<close> returns satisfies the Graph
  invariant: every page in a link set is a key of the mapping, and no link set contains
  its own key (the keys are distinct as well). The result holds for every listing, every
  content of the files and every list of links the pattern finds. \<^verbatim>\<open>crawl\<close> does return
  a mapping whenever the directory can be listed and every file of it whose name ends in
  \<^verbatim>\<open>.html\<close> can be read.
\<close>

theorem crawl_graph_invariant:
  "(crawl os_listdir read_file findall directory = Inr pages \<longrightarrow>
      links_in_corpus pages \<and> no_self_links pages \<and> distinct (map fst pages)) \<and>
   (os_listdir directory = Inr filenames \<and>
    (\<forall>f\<in>set filenames. endswith f ''.html'' \<longrightarrow> (\<exists>c. read_file directory f = Inr c)) \<longrightarrow>
      (\<exists>pages'. crawl os_listdir read_file findall directory = Inr pages'))"
  using crawl_result[of os_listdir read_file findall directory pages]
    crawl_returns[of os_listdir directory filenames read_file findall]
  by blast

text \<open>Witness of C9 on the example directory: the self-link of \<^verbatim>\<open>1.html\<close>, its link to
  the missing \<^verbatim>\<open>x.html\<close> and the file \<^verbatim>\<open>notes.txt\<close> are dropped.\<close>

theorem crawl_graph_invariant_witness:
  "crawl demo_listdir demo_read demo_findall ''corpus'' =
     Inr [(''1.html'', {|''2.html''|}), (''2.html'', {|''1.html''|})] \<and>
   links_in_corpus [(''1.html'', {|''2.html''|}), (''2.html'', {|''1.html''|})] \<and>
   no_self_links [(''1.html'', {|''2.html''|}), (''2.html'', {|''1.html''|})] \<and>
   distinct (map fst [(''1.html'', {|''2.html''|}), (''2.html'', {|''1.html''|})])"
  using crawl_graph_invariant[of demo_listdir demo_read demo_findall "''corpus''"
      "[(''1.html'', {|''2.html''|}), (''2.html'', {|''1.html''|})]"] demo_crawl
  by blast

section \<open>sample_pagerank and invalid input\<close>

lemma sample_step_length:
  "sample_step rnd corpus d websites x st = Inr st' \<Longrightarrow> length (snd st') = Suc (length (snd st))"
  by (auto simp: sample_step_def ebind_def split: sum.splits)

lemma sample_loop_length:
  "efold (sample_step rnd corpus d websites) xs st = Inr st' \<Longrightarrow>
   length (snd st') = length (snd st) + length xs"
proof (induction xs arbitrary: st)
  case Nil
  then show ?case by simp
next
  case (Cons x xs)
  from Cons.prems obtain mid where
    s: "sample_step rnd corpus d websites x st = Inr mid" and
    r: "efold (sample_step rnd corpus d websites) xs mid = Inr st'"
    by (auto simp: ebind_def split: sum.splits)
  show ?case using Cons.IH[OF r] sample_step_length[OF s] by simp
qed

lemma sample_walk_length:
  assumes "sample_walk rnd corpus d n = Inr samples"
  shows "int (length samples) = max 1 n"
proof -
  from assms obtain page st where
    "efold (sample_step rnd corpus d (map fst corpus)) [1..n - 1] (page, [page]) = Inr st"
    and "samples = snd st"
    by (auto simp: sample_walk_def Let_def ebind_def split: sum.splits)
  then have "length samples = 1 + length [1..n - 1]"
    using sample_loop_length by fastforce
  then show ?thesis by simp
qed

lemma Counter_keys_distinct_aux:
  "distinct (map fst c) \<Longrightarrow>
   distinct (map fst (fold (\<lambda>elem c. AList.update elem
      (case map_of c elem of None \<Rightarrow> 1 | Some k \<Rightarrow> k + 1) c) samples c))"
  by (induction samples arbitrary: c) (simp_all add: distinct_update)

lemma Counter_keys_distinct: "distinct (map fst (Counter samples :: ('a \<times> nat) list))"
  unfolding Counter_def by (rule Counter_keys_distinct_aux) simp

lemma tally_loop:
  "distinct (map fst cs) \<Longrightarrow> fst ` set cs \<inter> fst ` set acc = {} \<Longrightarrow>
   efold tally_step cs acc =
     Inr (acc @ map (\<lambda>item. (fst item, rat_of_nat (snd item) / rat_of_nat SAMPLES)) cs)"
proof (induction cs arbitrary: acc)
  case Nil
  then show ?case by simp
next
  case (Cons a cs)
  have fresh: "fst a \<notin> fst ` set acc" using Cons.prems by auto
  have step: "tally_step a acc = Inr (acc @ [(fst a, rat_of_nat (snd a) / rat_of_nat SAMPLES)])"
    using fresh by (simp add: tally_step_def py_div_nonzero SAMPLES_def update_fresh)
  have "fst ` set cs \<inter> fst ` set (acc @ [(fst a, rat_of_nat (snd a) / rat_of_nat SAMPLES)]) = {}"
    using Cons.prems by auto
  with Cons step show ?case by simp
qed

lemma sample_pagerank_tally:
  assumes "sample_pagerank rnd corpus d n = Inr r"
  shows "\<exists>samples. sample_walk rnd corpus d n = Inr samples \<and> int (length samples) = max 1 n \<and>
           r = map (\<lambda>item. (fst item, rat_of_nat (snd item) / 10000)) (Counter samples)"
proof -
  from assms obtain samples where
    w: "sample_walk rnd corpus d n = Inr samples" and
    t: "efold tally_step (Counter samples) [] = Inr r"
    by (auto simp: sample_pagerank_def ebind_def split: sum.splits)
  have "efold tally_step (Counter samples) [] =
      Inr ([] @ map (\<lambda>item. (fst item, rat_of_nat (snd item) / rat_of_nat SAMPLES)) (Counter samples))"
    by (rule tally_loop[OF Counter_keys_distinct]) simp
  then have "r = map (\<lambda>item. (fst item, rat_of_nat (snd item) / 10000)) (Counter samples)"
    using t by (simp add: SAMPLES_def)
  then show ?thesis using w sample_walk_length[OF w] by blast
qed

lemma sample_pagerank_single:
  "sample_pagerank rnd [(''A'', {||})] (17 / 20) 1 = Inr [(''A'', 1 / 10000)]"
  by (simp add: sample_pagerank_def sample_walk_def random_choice_def Counter_def tally_step_def
      py_div_def SAMPLES_def)

lemma sample_walk_AB_3:
  "sample_walk (\<lambda>k. k) corpus_AB (17 / 20) 3 = Inr [''A'', ''B'', ''A'']"
proof -
  have r: "[1..3 - 1] = [1, 2::int]" by (simp add: upto.simps)
  have k: "map fst corpus_AB = [''A'', ''B'']" by (simp add: corpus_AB_def)
  show ?thesis
    unfolding sample_walk_def Let_def r k
    by (simp add: sample_step_def random_choice_def random_choices_def
        transition_model_AB_A transition_model_AB_B eval_nat_numeral)
qed

lemma sample_pagerank_AB_3:
  "sample_pagerank (\<lambda>k. k) corpus_AB (17 / 20) 3 = Inr [(''A'', 2 / 10000), (''B'', 1 / 10000)]"
  by (simp add: sample_pagerank_def sample_walk_AB_3 Counter_def tally_step_def
      py_div_def SAMPLES_def)

text \<open>
  Claim C4 says that \<^verbatim>\<open>sample_pagerank(corpus, d, n)\<close> walks exactly \<open>n\<close> samples and
  returns, for each page of the walk, its number of visits divided by \<open>n\<close>. The walk is
  as the claim says (\<open>sample_walk_length\<close>), but the code divides by the module constant
  \<^verbatim>\<open>SAMPLES\<close> = 10000 and not by \<open>n\<close> (\<open>sample_pagerank_tally\<close>): for \<open>n = 1\<close> on
  the corpus \<^verbatim>\<open>{"A": set()}\<close> it returns \<^verbatim>\<open>{"A": 0.0001}\<close> whatever is drawn, where the
  claim says 1/1; for \<open>n = 3\<close> on \<^verbatim>\<open>{"A": {"B"}, "B": set()}\<close> and the walk A, B, A
  it returns \<^verbatim>\<open>{"A": 0.0002, "B": 0.0001}\<close>, where the claim says 2/3 and 1/3.
\<close>

theorem sample_pagerank_divides_by_SAMPLES:
  "sample_pagerank rnd [(''A'', {||})] (17 / 20) 1 = Inr [(''A'', 1 / 10000)] \<and>
   sample_walk (\<lambda>k. k) corpus_AB (17 / 20) 3 = Inr [''A'', ''B'', ''A''] \<and>
   sample_pagerank (\<lambda>k. k) corpus_AB (17 / 20) 3 = Inr [(''A'', 2 / 10000), (''B'', 1 / 10000)]"
  using sample_pagerank_single sample_walk_AB_3 sample_pagerank_AB_3 by simp

lemma sample_pagerank_empty: "sample_pagerank rnd [] d n = Inl IndexError"
  by (simp add: sample_pagerank_def sample_walk_def random_choice_def)

lemma iterate_pagerank_empty: "iterate_pagerank [] d = Some (Inr [])"
  by (subst iterate_pagerank_def, subst iterate_loop.simps)
    (simp add: init_pagerank_def sweep_def)

lemma transition_model_empty: "transition_model [] page d = Inr []"
  by (simp add: transition_model_def)

text \<open>
  Claim C7 says that an empty corpus, or a current page that is not a key of the corpus,
  makes the estimator raise an exception. The code has no such check: on the empty
  corpus \<^verbatim>\<open>iterate_pagerank\<close> returns the empty dict, and so does
  \<^verbatim>\<open>transition_model\<close>; on the corpus \<^verbatim>\<open>{"A": set()}\<close> with the current page \<^verbatim>\<open>Z\<close>,
  which is not a key, \<^verbatim>\<open>transition_model\<close> returns \<^verbatim>\<open>{"A": 1.0}\<close>.
\<close>

theorem invalid_input_returns:
  "iterate_pagerank ([] :: string corpus) (17 / 20) = Some (Inr []) \<and>
   transition_model ([] :: string corpus) ''A'' (17 / 20) = Inr [] \<and>
   transition_model [(''A'', {||})] ''Z'' (17 / 20) = Inr [(''A'', 1)]"
  using iterate_pagerank_empty[of "17 / 20", where ?'a = string]
  by (simp add: transition_model_def transition_step_def transition_weight_def py_div_def
      fcard_fempty)

text \<open>
  Claim C7 as amended: what the code does on these inputs. On the empty corpus
  \<^verbatim>\<open>sample_pagerank\<close> raises IndexError (from \<^verbatim>\<open>random.choice\<close>), for every damping
  factor, sample count and draw, while \<^verbatim>\<open>iterate_pagerank\<close> and \<^verbatim>\<open>transition_model\<close>
  raise nothing and return the empty dict. For a current page that is not a key of a
  corpus (with distinct keys), \<^verbatim>\<open>transition_model\<close> raises TypeError exactly when some
  page of the corpus has a link, and otherwise returns 1/N for every page.
\<close>

theorem invalid_input_behaviour:
  "sample_pagerank rnd [] d n = Inl IndexError \<and>
   iterate_pagerank [] d = Some (Inr []) \<and>
   transition_model [] page d = Inr [] \<and>
   (distinct (map fst corpus) \<and> page \<notin> fst ` set corpus \<longrightarrow>
      transition_model corpus page d =
        (if list_all (\<lambda>item. snd item = {||}) corpus
         then Inr (map (\<lambda>item. (fst item, 1 / of_nat (length corpus))) corpus)
         else Inl TypeError))"
proof (intro conjI impI)
  show "sample_pagerank rnd [] d n = Inl IndexError" by (rule sample_pagerank_empty)
  show "iterate_pagerank [] d = Some (Inr [])" by (rule iterate_pagerank_empty)
  show "transition_model [] page d = Inr []" by (rule transition_model_empty)
next
  assume "distinct (map fst corpus) \<and> page \<notin> fst ` set corpus"
  then show "transition_model corpus page d =
        (if list_all (\<lambda>item. snd item = {||}) corpus
         then Inr (map (\<lambda>item. (fst item, 1 / of_nat (length corpus))) corpus)
         else Inl TypeError)"
    using transition_model_nokey[of corpus page d] by simp
qed

text \<open>Witness of C7 as amended: the page \<^verbatim>\<open>Z\<close> on the two-page corpus raises TypeError.\<close>

theorem invalid_input_behaviour_witness:
  "distinct (map fst corpus_AB) \<and> ''Z'' \<notin> fst ` set corpus_AB \<and>
   transition_model corpus_AB ''Z'' (17 / 20) = Inl TypeError \<and>
   sample_pagerank (\<lambda>k. k) ([] :: string corpus) (17 / 20) 3 = Inl IndexError"
proof -
  have d: "distinct (map fst corpus_AB)" and z: "''Z'' \<notin> fst ` set corpus_AB"
    and l: "\<not> list_all (\<lambda>item. snd item = {||}) corpus_AB"
    by (simp_all add: corpus_AB_def)
  note t = invalid_input_behaviour[of "\<lambda>k. k" "17 / 20" 3 "''Z''" corpus_AB]
  have "transition_model corpus_AB ''Z'' (17 / 20) =
      (if list_all (\<lambda>item. snd item = {||}) corpus_AB
       then Inr (map (\<lambda>item. (fst item, 1 / of_nat (length corpus_AB))) corpus_AB)
       else Inl TypeError)"
    using t d z by blast
  then have "transition_model corpus_AB ''Z'' (17 / 20) = Inl TypeError"
    using l by (simp only: if_False)
  moreover have "sample_pagerank (\<lambda>k. k) ([] :: string corpus) (17 / 20) 3 = Inl IndexError"
    using t by blast
  ultimately show ?thesis using d z by blast
qed

section \<open>iterate_pagerank over any arithmetic: one sweep is the synchronous update\<close>

lemma getitem_rank_of_ar: "k \<in> fst ` set d \<Longrightarrow> getitem d k = Inr (rank_of_ar ar d k)"
  using map_of_key[of k d] by (auto simp: getitem_def rank_of_ar_def)

lemma py_div_ar_nonzero:
  "n \<noteq> 0 \<Longrightarrow> py_div_ar ar a n = Inr (n_div ar a (n_of_int ar (int n)))"
  by (simp add: py_div_ar_def)

lemma add_contribution_ar_ok:
  assumes "q \<in> fst ` set corpus" and "q \<in> fst ` set pagerank"
  shows "add_contribution_ar ar corpus pagerank page q t =
           Inr (add_share_ar ar corpus pagerank page t q)"
proof -
  have N: "length corpus \<noteq> 0" using assms(1) by auto
  have L: "page |\<in>| links_of corpus q \<Longrightarrow> fcard (links_of corpus q) \<noteq> 0"
    by (rule fcard_pos_of_mem)
  show ?thesis
  proof (cases "page |\<in>| links_of corpus q")
    case True
    then have ne: "links_of corpus q \<noteq> {||}" by auto
    show ?thesis
      using assms N L[OF True] True ne
      by (simp add: add_contribution_ar_def add_share_ar_def getitem_rank_of_ar[where ar = ar]
          getitem_links_of py_div_ar_nonzero fcard_0_eq)
  next
    case False
    show ?thesis
      using assms N False
      by (simp add: add_contribution_ar_def add_share_ar_def getitem_rank_of_ar[where ar = ar]
          getitem_links_of py_div_ar_nonzero fcard_0_eq)
  qed
qed

lemma total_loop_ar_ok:
  "set qs \<subseteq> fst ` set corpus \<Longrightarrow> set qs \<subseteq> fst ` set pagerank \<Longrightarrow>
   efold (add_contribution_ar ar corpus pagerank page) qs t =
     Inr (foldl (add_share_ar ar corpus pagerank page) t qs)"
  by (induction qs arbitrary: t) (simp_all add: add_contribution_ar_ok)

lemma new_rank_step_ar_ok:
  assumes "corpus \<noteq> []" and "fst ` set corpus \<subseteq> fst ` set pagerank"
  shows "new_rank_step_ar ar corpus d pagerank page new_rank =
           Inr (AList.update page (new_rank_value_ar ar corpus d pagerank page) new_rank)"
proof -
  have "efold (add_contribution_ar ar corpus pagerank page) (map fst corpus) (n_of_int ar 0) =
          Inr (foldl (add_share_ar ar corpus pagerank page) (n_of_int ar 0) (map fst corpus))"
    using assms(2) by (intro total_loop_ar_ok) auto
  moreover have "length corpus \<noteq> 0" using assms(1) by simp
  ultimately show ?thesis
    by (simp add: new_rank_step_ar_def new_rank_value_ar_def py_div_ar_nonzero)
qed

lemma new_rank_loop_ar_ok:
  assumes "corpus \<noteq> []" and "fst ` set corpus \<subseteq> fst ` set pagerank"
  shows "efold (new_rank_step_ar ar corpus d pagerank) ps new_rank =
           Inr (fold (\<lambda>p. AList.update p (new_rank_value_ar ar corpus d pagerank p)) ps new_rank)"
  by (induction ps arbitrary: new_rank) (simp_all add: new_rank_step_ar_ok[OF assms])

lemma rank_of_ar_update_other:
  "k \<noteq> p \<Longrightarrow> rank_of_ar ar (AList.update p v al) k = rank_of_ar ar al k"
  by (simp add: rank_of_ar_def update_conv')

lemma commit_step_ar_ok:
  assumes "p \<in> fst ` set pagerank" and "map_of new_rank p = Some v"
  shows "commit_step_ar ar new_rank p (stop, pagerank) =
           Inr (stop \<and> \<not> n_gt ar (n_abs ar (n_sub ar (rank_of_ar ar pagerank p) v)) (n_0_001 ar),
                AList.update p v pagerank)"
  using assms by (auto simp: commit_step_ar_def getitem_rank_of_ar[where ar = ar] getitem_Some)

lemma commit_loop_ar_ok:
  assumes nr: "\<And>p. p \<in> set ps \<Longrightarrow> map_of new_rank p = Some (f p)"
  shows "distinct ps \<Longrightarrow> set ps \<subseteq> fst ` set pagerank \<Longrightarrow>
     efold (commit_step_ar ar new_rank) ps (stop, pagerank) =
       Inr (stop \<and> list_all (\<lambda>p. \<not> n_gt ar (n_abs ar (n_sub ar (rank_of_ar ar pagerank p) (f p)))
                                   (n_0_001 ar)) ps,
            fold (\<lambda>p. AList.update p (f p)) ps pagerank)"
  using nr
proof (induction ps arbitrary: stop pagerank)
  case Nil
  then show ?case by simp
next
  case (Cons p ps)
  let ?pr = "AList.update p (f p) pagerank"
  let ?ok = "\<lambda>pr q. \<not> n_gt ar (n_abs ar (n_sub ar (rank_of_ar ar pr q) (f q))) (n_0_001 ar)"
  have step: "commit_step_ar ar new_rank p (stop, pagerank) = Inr (stop \<and> ?ok pagerank p, ?pr)"
    using Cons.prems by (intro commit_step_ar_ok) auto
  have keys: "set ps \<subseteq> fst ` set ?pr"
    using Cons.prems(2) by (auto simp: update_keys[of p "f p" pagerank] simp flip: set_map)
  have same: "list_all (?ok ?pr) ps = list_all (?ok pagerank) ps"
  proof -
    have "\<And>q. q \<in> set ps \<Longrightarrow> rank_of_ar ar ?pr q = rank_of_ar ar pagerank q"
      using Cons.prems(1) by (intro rank_of_ar_update_other) auto
    then show ?thesis by (simp add: list_all_iff)
  qed
  have "efold (commit_step_ar ar new_rank) ps (stop \<and> ?ok pagerank p, ?pr) =
      Inr ((stop \<and> ?ok pagerank p) \<and> list_all (?ok ?pr) ps,
           fold (\<lambda>p. AList.update p (f p)) ps ?pr)"
    using Cons.prems keys by (intro Cons.IH) auto
  with step same show ?case by (simp add: conj_assoc)
qed

lemma rank_of_ar_map_key:
  "p \<in> fst ` set al \<Longrightarrow> rank_of_ar ar (map (\<lambda>item. (fst item, f (fst item))) al) p = f p"
proof -
  assume "p \<in> fst ` set al"
  then have "map_of (map (\<lambda>item. (fst item, f (fst item))) al) p = Some (f p)"
    by (induction al) auto
  then show ?thesis by (simp add: rank_of_ar_def)
qed

lemma sweep_ar_ok:
  assumes d: "distinct (map fst corpus)" and k: "map fst pagerank = map fst corpus"
  shows "\<exists>new_rank'. sweep_ar ar corpus damping_factor pagerank new_rank =
           Inr (converged_ar ar pagerank (synchronous_sweep_ar ar corpus damping_factor pagerank),
                synchronous_sweep_ar ar corpus damping_factor pagerank, new_rank')"
proof (cases "corpus = []")
  case True
  with k show ?thesis by (simp add: sweep_ar_def converged_ar_def synchronous_sweep_ar_def)
next
  case False
  let ?f = "new_rank_value_ar ar corpus damping_factor pagerank"
  let ?nr = "fold (\<lambda>p. AList.update p (?f p)) (map fst pagerank) new_rank"
  have sub: "fst ` set corpus \<subseteq> fst ` set pagerank"
    using k by (metis list.set_map subset_refl)
  have p1: "efold (new_rank_step_ar ar corpus damping_factor pagerank) (map fst pagerank) new_rank =
      Inr ?nr"
    by (rule new_rank_loop_ar_ok[OF False sub])
  have dp: "distinct (map fst pagerank)" using d k by simp
  have p2: "efold (commit_step_ar ar ?nr) (map fst pagerank) (True, pagerank) =
      Inr (True \<and> list_all (\<lambda>p. \<not> n_gt ar (n_abs ar (n_sub ar (rank_of_ar ar pagerank p) (?f p)))
                                   (n_0_001 ar)) (map fst pagerank),
           fold (\<lambda>p. AList.update p (?f p)) (map fst pagerank) pagerank)"
    using dp by (intro commit_loop_ar_ok) (auto simp: map_of_fold_update)
  have conv: "list_all (\<lambda>p. \<not> n_gt ar (n_abs ar (n_sub ar (rank_of_ar ar pagerank p) (?f p)))
                                   (n_0_001 ar)) (map fst pagerank) =
      converged_ar ar pagerank (synchronous_sweep_ar ar corpus damping_factor pagerank)"
    by (auto simp: converged_ar_def synchronous_sweep_ar_def list_all_iff rank_of_ar_map_key)
  show ?thesis
    using p1 p2 conv fold_update_all[OF dp, of ?f]
    by (simp add: sweep_ar_def synchronous_sweep_ar_def)
qed

lemma init_loop_ar_ok:
  assumes "corpus \<noteq> []"
  shows "efold (init_step_ar ar corpus) ps pagerank =
     Inr (fold (\<lambda>p. AList.update p (n_truediv ar 1 (int (length corpus)))) ps pagerank)"
  using assms
  by (induction ps arbitrary: pagerank) (simp_all add: init_step_ar_def py_truediv_ar_def)

lemma init_pagerank_ar_ok:
  assumes "distinct (map fst corpus)"
  shows "init_pagerank_ar ar corpus = Inr (uniform_ranks_ar ar corpus)"
proof (cases "corpus = []")
  case True
  then show ?thesis by (simp add: init_pagerank_ar_def uniform_ranks_ar_def)
next
  case False
  show ?thesis
    using init_loop_ar_ok[OF False, of ar "map fst corpus" "[]"]
      fold_update_fresh[OF assms, of "[]" "\<lambda>_. n_truediv ar 1 (int (length corpus))"]
    by (simp add: init_pagerank_ar_def uniform_ranks_ar_def)
qed

lemma keys_synchronous_sweep_ar [simp]:
  "map fst (synchronous_sweep_ar ar corpus d pr) = map fst pr"
  by (simp add: synchronous_sweep_ar_def comp_def)

lemma keys_uniform_ranks_ar [simp]: "map fst (uniform_ranks_ar ar corpus) = map fst corpus"
  by (simp add: uniform_ranks_ar_def comp_def)

lemma sweeps_ar_0: "sweeps_ar ar corpus d 0 = uniform_ranks_ar ar corpus"
  by (simp add: sweeps_ar_def)

lemma sweeps_ar_Suc:
  "sweeps_ar ar corpus d (Suc k) = synchronous_sweep_ar ar corpus d (sweeps_ar ar corpus d k)"
  by (simp add: sweeps_ar_def)

lemma keys_sweeps_ar [simp]: "map fst (sweeps_ar ar corpus d k) = map fst corpus"
  by (induction k) (simp_all add: sweeps_ar_0 sweeps_ar_Suc)

section \<open>iterate_pagerank over any arithmetic: when the loop returns\<close>

lemma keys_funpow_sweep_ar [simp]:
  "map fst ((synchronous_sweep_ar ar corpus d ^^ k) pr) = map fst pr"
  by (induction k) simp_all

lemma loop_ar_returns:
  assumes d: "distinct (map fst corpus)"
  shows "map fst pr = map fst corpus \<Longrightarrow>
    converged_ar ar ((synchronous_sweep_ar ar corpus df ^^ k) pr)
      ((synchronous_sweep_ar ar corpus df ^^ Suc k) pr) \<Longrightarrow>
    (\<And>j. j < k \<Longrightarrow>
       \<not> converged_ar ar ((synchronous_sweep_ar ar corpus df ^^ j) pr)
            ((synchronous_sweep_ar ar corpus df ^^ Suc j) pr)) \<Longrightarrow>
    iterate_loop_ar ar corpus df pr nr =
      Some (Inr ((synchronous_sweep_ar ar corpus df ^^ Suc k) pr))"
proof (induction k arbitrary: pr nr)
  case 0
  obtain nr' where "sweep_ar ar corpus df pr nr =
      Inr (converged_ar ar pr (synchronous_sweep_ar ar corpus df pr),
           synchronous_sweep_ar ar corpus df pr, nr')"
    using sweep_ar_ok[OF d "0.prems"(1)] by blast
  then show ?case using "0.prems"(2) by (subst iterate_loop_ar.simps) simp
next
  case (Suc k)
  define S where "S = synchronous_sweep_ar ar corpus df"
  have shift: "(S ^^ i) (S pr) = (S ^^ Suc i) pr" for i
    by (simp only: funpow_Suc_right comp_apply)
  obtain nr' where sw: "sweep_ar ar corpus df pr nr = Inr (converged_ar ar pr (S pr), S pr, nr')"
    using sweep_ar_ok[OF d Suc.prems(1)] unfolding S_def by blast
  have nc: "\<not> converged_ar ar pr (S pr)" using Suc.prems(3)[of 0] by (simp add: S_def)
  have "iterate_loop_ar ar corpus df (S pr) nr' = Some (Inr ((S ^^ Suc k) (S pr)))"
    unfolding S_def
  proof (rule Suc.IH)
    show "map fst (synchronous_sweep_ar ar corpus df pr) = map fst corpus"
      using Suc.prems(1) by simp
    show "converged_ar ar ((synchronous_sweep_ar ar corpus df ^^ k) (synchronous_sweep_ar ar corpus df pr))
        ((synchronous_sweep_ar ar corpus df ^^ Suc k) (synchronous_sweep_ar ar corpus df pr))"
      using Suc.prems(2) shift[of k] shift[of "Suc k"] unfolding S_def by simp
    show "\<not> converged_ar ar ((synchronous_sweep_ar ar corpus df ^^ j) (synchronous_sweep_ar ar corpus df pr))
        ((synchronous_sweep_ar ar corpus df ^^ Suc j) (synchronous_sweep_ar ar corpus df pr))"
      if "j < k" for j
      using Suc.prems(3)[of "Suc j"] that shift[of j] shift[of "Suc j"] unfolding S_def by simp
  qed
  then have "iterate_loop_ar ar corpus df (S pr) nr' = Some (Inr ((S ^^ Suc (Suc k)) pr))"
    by (simp only: shift)
  then show ?case using sw nc unfolding S_def by (subst iterate_loop_ar.simps) simp
qed

lemma loop_ar_result:
  assumes "iterate_loop_ar ar corpus df pr nr = Some res"
  shows "distinct (map fst corpus) \<longrightarrow> map fst pr = map fst corpus \<longrightarrow>
    (\<exists>k. res = Inr ((synchronous_sweep_ar ar corpus df ^^ Suc k) pr) \<and>
       converged_ar ar ((synchronous_sweep_ar ar corpus df ^^ k) pr)
         ((synchronous_sweep_ar ar corpus df ^^ Suc k) pr) \<and>
       (\<forall>j<k. \<not> converged_ar ar ((synchronous_sweep_ar ar corpus df ^^ j) pr)
                  ((synchronous_sweep_ar ar corpus df ^^ Suc j) pr)))"
proof (rule iterate_loop_ar.raw_induct[where P = "\<lambda>ar corpus df pr nr res.
    distinct (map fst corpus) \<longrightarrow> map fst pr = map fst corpus \<longrightarrow>
    (\<exists>k. res = Inr ((synchronous_sweep_ar ar corpus df ^^ Suc k) pr) \<and>
       converged_ar ar ((synchronous_sweep_ar ar corpus df ^^ k) pr)
         ((synchronous_sweep_ar ar corpus df ^^ Suc k) pr) \<and>
       (\<forall>j<k. \<not> converged_ar ar ((synchronous_sweep_ar ar corpus df ^^ j) pr)
                  ((synchronous_sweep_ar ar corpus df ^^ Suc j) pr)))", OF _ assms], goal_cases)
  case (1 loop ar corpus df pr nr res)
  show ?case
  proof (intro impI)
    assume d: "distinct (map fst corpus)" and k: "map fst pr = map fst corpus"
    define S where "S = synchronous_sweep_ar ar corpus df"
    define C where "C = (\<lambda>x i. converged_ar ar ((S ^^ i) x) ((S ^^ Suc i) x))"
    obtain nr' where sw: "sweep_ar ar corpus df pr nr = Inr (converged_ar ar pr (S pr), S pr, nr')"
      using sweep_ar_ok[OF d k] unfolding S_def by blast
    have body: "(if converged_ar ar pr (S pr) then Some (Inr (S pr))
                 else loop ar corpus df (S pr) nr') = Some res"
      using "1"(2) by (simp only: sw sum.case prod.case)
    have shift: "(S ^^ i) (S pr) = (S ^^ Suc i) pr" for i
      by (simp only: funpow_Suc_right comp_apply)
    have C0: "C pr 0 = converged_ar ar pr (S pr)" by (simp add: C_def)
    have CS: "C pr (Suc i) = C (S pr) i" for i
      unfolding C_def by (simp only: shift)
    have "\<exists>k. res = Inr ((S ^^ Suc k) pr) \<and> C pr k \<and> (\<forall>j<k. \<not> C pr j)"
    proof (cases "converged_ar ar pr (S pr)")
      case True
      then have "res = Inr (S pr)" using body by simp
      then have "res = Inr ((S ^^ Suc 0) pr) \<and> C pr 0 \<and> (\<forall>j<0. \<not> C pr j)"
        using True C0 by simp
      then show ?thesis by (rule exI)
    next
      case False
      then have run: "loop ar corpus df (S pr) nr' = Some res" using body by simp
      have keys: "map fst (S pr) = map fst corpus" using k by (simp add: S_def)
      have "\<exists>k. res = Inr ((S ^^ Suc k) (S pr)) \<and> C (S pr) k \<and> (\<forall>j<k. \<not> C (S pr) j)"
        using "1"(1)[OF run] d keys unfolding S_def C_def by blast
      then obtain m where m1: "res = Inr ((S ^^ Suc m) (S pr))" and m2: "C (S pr) m"
        and m3: "\<forall>j<m. \<not> C (S pr) j"
        by blast
      have r: "res = Inr ((S ^^ Suc (Suc m)) pr)" using m1 by (simp only: shift)
      have c: "C pr (Suc m)" using m2 by (simp add: CS)
      have n: "\<not> C pr j" if "j < Suc m" for j
      proof (cases j)
        case 0
        then show ?thesis using False C0 by simp
      next
        case (Suc i)
        then have "i < m" using that by simp
        then have "\<not> C (S pr) i" using m3 by blast
        then have "\<not> C pr (Suc i)" by (simp add: CS)
        then show ?thesis using Suc by simp
      qed
      from r c n have "res = Inr ((S ^^ Suc (Suc m)) pr) \<and> C pr (Suc m) \<and> (\<forall>j<Suc m. \<not> C pr j)"
        by blast
      then show ?thesis by (rule exI)
    qed
    then show "\<exists>k. res = Inr ((synchronous_sweep_ar ar corpus df ^^ Suc k) pr) \<and>
       converged_ar ar ((synchronous_sweep_ar ar corpus df ^^ k) pr)
         ((synchronous_sweep_ar ar corpus df ^^ Suc k) pr) \<and>
       (\<forall>j<k. \<not> converged_ar ar ((synchronous_sweep_ar ar corpus df ^^ j) pr)
                  ((synchronous_sweep_ar ar corpus df ^^ Suc j) pr))"
      unfolding S_def C_def .
  qed
qed

lemma iterate_pagerank_ar_returns:
  assumes "distinct (map fst corpus)" and "stops_at_ar ar corpus d k"
  shows "iterate_pagerank_ar ar corpus d = Some (Inr (sweeps_ar ar corpus d (Suc k)))"
proof -
  have "iterate_loop_ar ar corpus d (uniform_ranks_ar ar corpus) [] =
          Some (Inr ((synchronous_sweep_ar ar corpus d ^^ Suc k) (uniform_ranks_ar ar corpus)))"
  proof (rule loop_ar_returns[OF assms(1)])
    show "map fst (uniform_ranks_ar ar corpus) = map fst corpus" by simp
    show "converged_ar ar ((synchronous_sweep_ar ar corpus d ^^ k) (uniform_ranks_ar ar corpus))
           ((synchronous_sweep_ar ar corpus d ^^ Suc k) (uniform_ranks_ar ar corpus))"
      using assms(2) unfolding stops_at_ar_def sweeps_ar_def by blast
    show "\<not> converged_ar ar ((synchronous_sweep_ar ar corpus d ^^ j) (uniform_ranks_ar ar corpus))
           ((synchronous_sweep_ar ar corpus d ^^ Suc j) (uniform_ranks_ar ar corpus))" if "j < k" for j
      using assms(2) that unfolding stops_at_ar_def sweeps_ar_def by (simp add: list_all_iff)
  qed
  then show ?thesis
    unfolding sweeps_ar_def
    by (simp add: iterate_pagerank_ar_def init_pagerank_ar_ok[OF assms(1)])
qed

lemma iterate_pagerank_ar_result:
  assumes "distinct (map fst corpus)" and "iterate_pagerank_ar ar corpus d = Some res"
  shows "\<exists>k. stops_at_ar ar corpus d k \<and> res = Inr (sweeps_ar ar corpus d (Suc k))"
proof -
  have "iterate_loop_ar ar corpus d (uniform_ranks_ar ar corpus) [] = Some res"
    using assms by (simp add: iterate_pagerank_ar_def init_pagerank_ar_ok)
  from loop_ar_result[OF this] assms(1) show ?thesis
    unfolding stops_at_ar_def sweeps_ar_def by (auto simp: list_all_iff)
qed

text \<open>
  Claim C6: in every sweep of \<^verbatim>\<open>iterate_pagerank\<close> the new rank of every page is computed
  from the ranks before the sweep only (the update is synchronous), the test for
  convergence is made on the whole sweep, and the function returns exactly after the first
  sweep in which no rank moved by more than 0.001. The theorem holds in every arithmetic
  \<open>ar\<close>, so also in Python's doubles with their rounding. For a corpus with distinct
  keys: one round of the loop, run on ranks over the keys of the corpus and on any
  \<^verbatim>\<open>new_rank\<close>, raises nothing, leaves \<open>synchronous_sweep_ar\<close> of the old ranks in
  \<^verbatim>\<open>pagerank\<close> and sets \<^verbatim>\<open>stop\<close> to \<open>converged_ar\<close> of the old and the new ranks;
  and the function returns \<open>res\<close> if and only if some sweep \<open>k + 1\<close> is the first
  converged one and \<open>res\<close> is the ranks after it (so it raises nothing, and does not
  return when no sweep converges).
\<close>

theorem iterate_pagerank_ar_synchronous:
  assumes "distinct (map fst corpus)"
  shows "(map fst pagerank = map fst corpus \<longrightarrow>
            (\<exists>new_rank'. sweep_ar ar corpus d pagerank new_rank =
               Inr (converged_ar ar pagerank (synchronous_sweep_ar ar corpus d pagerank),
                    synchronous_sweep_ar ar corpus d pagerank, new_rank'))) \<and>
         (iterate_pagerank_ar ar corpus d = Some res \<longleftrightarrow>
            (\<exists>k. stops_at_ar ar corpus d k \<and> res = Inr (sweeps_ar ar corpus d (Suc k))))"
proof (intro conjI impI iffI)
  assume "map fst pagerank = map fst corpus"
  then show "\<exists>new_rank'. sweep_ar ar corpus d pagerank new_rank =
               Inr (converged_ar ar pagerank (synchronous_sweep_ar ar corpus d pagerank),
                    synchronous_sweep_ar ar corpus d pagerank, new_rank')"
    by (rule sweep_ar_ok[OF assms])
next
  assume "iterate_pagerank_ar ar corpus d = Some res"
  then show "\<exists>k. stops_at_ar ar corpus d k \<and> res = Inr (sweeps_ar ar corpus d (Suc k))"
    by (rule iterate_pagerank_ar_result[OF assms])
next
  assume "\<exists>k. stops_at_ar ar corpus d k \<and> res = Inr (sweeps_ar ar corpus d (Suc k))"
  then obtain k where "stops_at_ar ar corpus d k" and "res = Inr (sweeps_ar ar corpus d (Suc k))"
    by blast
  then show "iterate_pagerank_ar ar corpus d = Some res"
    using iterate_pagerank_ar_returns[OF assms] by simp
qed

section \<open>iterate_pagerank over any arithmetic: the exact arithmetic and an example\<close>

text \<open>In the exact arithmetic the code over any arithmetic is the code of the section
  on \<^verbatim>\<open>iterate_pagerank\<close>.\<close>

lemma py_div_ar_rat: "py_div_ar rat_arith a n = py_div a (of_nat n)"
  by (simp add: py_div_ar_def py_div_def rat_arith_def)

lemma py_truediv_ar_rat: "py_truediv_ar rat_arith 1 n = py_div 1 (of_nat n)"
  by (simp add: py_truediv_ar_def py_div_def rat_arith_def)

lemma init_pagerank_ar_rat: "init_pagerank_ar rat_arith corpus = init_pagerank corpus"
proof -
  have "init_step_ar rat_arith corpus = init_step corpus"
    by (intro ext) (simp add: init_step_ar_def init_step_def py_truediv_ar_rat)
  then show ?thesis by (simp add: init_pagerank_ar_def init_pagerank_def)
qed

lemma add_contribution_ar_rat:
  "add_contribution_ar rat_arith corpus pagerank page = add_contribution corpus pagerank page"
proof (intro ext)
  fix q t
  have a: "n_add rat_arith = (\<lambda>a b. a + b)" by (simp add: rat_arith_def)
  show "add_contribution_ar rat_arith corpus pagerank page q t =
        add_contribution corpus pagerank page q t"
    by (simp add: add_contribution_ar_def add_contribution_def py_div_ar_rat a cong: if_cong)
qed

lemma new_rank_step_ar_rat:
  "new_rank_step_ar rat_arith corpus d pagerank = new_rank_step corpus d pagerank"
proof (intro ext)
  fix page new_rank
  have a: "n_add rat_arith = (\<lambda>a b. a + b)" "n_sub rat_arith = (\<lambda>a b. a - b)"
    "n_mul rat_arith = (\<lambda>a b. a * b)" "n_of_int rat_arith = of_int"
    by (simp_all add: rat_arith_def)
  show "new_rank_step_ar rat_arith corpus d pagerank page new_rank =
        new_rank_step corpus d pagerank page new_rank"
    by (simp add: new_rank_step_ar_def new_rank_step_def py_div_ar_rat add_contribution_ar_rat a)
qed

lemma commit_step_ar_rat: "commit_step_ar rat_arith new_rank = commit_step new_rank"
proof (intro ext)
  fix page st
  have a: "n_sub rat_arith = (\<lambda>a b. a - b)" "n_abs rat_arith = abs"
    "n_gt rat_arith = (\<lambda>a b. a > b)" "n_0_001 rat_arith = 1 / 1000"
    by (simp_all add: rat_arith_def)
  show "commit_step_ar rat_arith new_rank page st = commit_step new_rank page st"
    by (simp add: commit_step_ar_def commit_step_def a)
qed

lemma sweep_ar_rat: "sweep_ar rat_arith corpus d pagerank new_rank = sweep corpus d pagerank new_rank"
  by (simp add: sweep_ar_def sweep_def new_rank_step_ar_rat commit_step_ar_rat)

lemma iterate_loop_ar_rat_le:
  assumes "iterate_loop corpus d pagerank new_rank = Some y"
  shows "iterate_loop_ar rat_arith corpus d pagerank new_rank = Some y"
proof (rule iterate_loop.raw_induct[where P = "\<lambda>corpus d pagerank new_rank y.
    iterate_loop_ar rat_arith corpus d pagerank new_rank = Some y", OF _ assms], goal_cases)
  case (1 loop corpus d pagerank new_rank y)
  show ?case
  proof (cases "sweep corpus d pagerank new_rank")
    case (Inl e)
    then show ?thesis using "1"(2) by (subst iterate_loop_ar.simps) (simp add: sweep_ar_rat)
  next
    case (Inr r)
    obtain stop pagerank' new_rank' where r: "r = (stop, pagerank', new_rank')"
      by (cases r) auto
    show ?thesis
    proof (cases stop)
      case True
      then show ?thesis using "1"(2) Inr r
        by (subst iterate_loop_ar.simps) (simp add: sweep_ar_rat)
    next
      case False
      then have "loop corpus d pagerank' new_rank' = Some y" using "1"(2) Inr r by simp
      then have "iterate_loop_ar rat_arith corpus d pagerank' new_rank' = Some y"
        by (rule "1"(1))
      then show ?thesis using False Inr r
        by (subst iterate_loop_ar.simps) (simp add: sweep_ar_rat)
    qed
  qed
qed

lemma iterate_loop_ar_rat_ge:
  assumes "iterate_loop_ar ar corpus d pagerank new_rank = Some y"
  shows "ar = rat_arith \<longrightarrow> iterate_loop corpus d pagerank new_rank = Some y"
proof (rule iterate_loop_ar.raw_induct[where P = "\<lambda>ar corpus d pagerank new_rank y.
    ar = rat_arith \<longrightarrow> iterate_loop corpus d pagerank new_rank = Some y", OF _ assms], goal_cases)
  case (1 loop ar corpus d pagerank new_rank y)
  show ?case
  proof (intro impI)
    assume ar: "ar = rat_arith"
    show "iterate_loop corpus d pagerank new_rank = Some y"
    proof (cases "sweep corpus d pagerank new_rank")
      case (Inl e)
      then show ?thesis using "1"(2) ar by (subst iterate_loop.simps) (simp add: sweep_ar_rat)
    next
      case (Inr r)
      obtain stop pagerank' new_rank' where r: "r = (stop, pagerank', new_rank')"
        by (cases r) auto
      show ?thesis
      proof (cases stop)
        case True
        then show ?thesis using "1"(2) Inr r ar
          by (subst iterate_loop.simps) (simp add: sweep_ar_rat)
      next
        case False
        then have "loop ar corpus d pagerank' new_rank' = Some y"
          using "1"(2) Inr r ar by (simp add: sweep_ar_rat)
        then have "iterate_loop corpus d pagerank' new_rank' = Some y"
          using "1"(1) ar by blast
        then show ?thesis using False Inr r
          by (subst iterate_loop.simps) simp
      qed
    qed
  qed
qed

lemma iterate_loop_ar_rat:
  "iterate_loop_ar rat_arith corpus d pagerank new_rank = iterate_loop corpus d pagerank new_rank"
proof (cases "iterate_loop corpus d pagerank new_rank")
  case (Some y)
  then show ?thesis using iterate_loop_ar_rat_le by fastforce
next
  case None
  show ?thesis
  proof (cases "iterate_loop_ar rat_arith corpus d pagerank new_rank")
    case None2: None
    then show ?thesis using None by simp
  next
    case (Some y)
    then have "iterate_loop corpus d pagerank new_rank = Some y"
      using iterate_loop_ar_rat_ge by blast
    then show ?thesis using None by simp
  qed
qed

lemma iterate_pagerank_ar_rat: "iterate_pagerank_ar rat_arith corpus d = iterate_pagerank corpus d"
  by (simp add: iterate_pagerank_ar_def iterate_pagerank_def init_pagerank_ar_rat iterate_loop_ar_rat
      cong: sum.case_cong)

lemma synchronous_sweep_ar_AB:
  "synchronous_sweep_ar ar corpus_AB d [(''A'', a), (''B'', b)] =
     [(''A'', n_add ar (n_div ar (n_sub ar (n_of_int ar 1) d) (n_of_int ar 2))
                (n_mul ar d (n_add ar (n_of_int ar 0) (n_div ar b (n_of_int ar 2))))),
      (''B'', n_add ar (n_div ar (n_sub ar (n_of_int ar 1) d) (n_of_int ar 2))
                (n_mul ar d (n_add ar (n_add ar (n_of_int ar 0) (n_div ar a (n_of_int ar 1)))
                                      (n_div ar b (n_of_int ar 2)))))]"
  by (simp add: synchronous_sweep_ar_def new_rank_value_ar_def add_share_ar_def links_of_def
      rank_of_ar_def corpus_AB_def fcard_finsert_if fcard_fempty)

lemma converged_ar_AB:
  "converged_ar ar [(''A'', a), (''B'', b)] [(''A'', a'), (''B'', b')] =
     (\<not> n_gt ar (n_abs ar (n_sub ar a a')) (n_0_001 ar) \<and>
      \<not> n_gt ar (n_abs ar (n_sub ar b b')) (n_0_001 ar))"
  by (simp add: converged_ar_def rank_of_ar_def)

lemma uniform_ranks_ar_AB:
  "uniform_ranks_ar ar corpus_AB = [(''A'', n_truediv ar 1 2), (''B'', n_truediv ar 1 2)]"
  by (simp add: uniform_ranks_ar_def corpus_AB_def)

lemma sweeps_rat_AB:
  "sweeps_ar rat_arith corpus_AB (1 / 250) 0 = [(''A'', 1 / 2), (''B'', 1 / 2)] \<and>
   sweeps_ar rat_arith corpus_AB (1 / 250) (Suc 0) = [(''A'', 499 / 1000), (''B'', 501 / 1000)]"
  by (simp add: sweeps_ar_0 sweeps_ar_Suc uniform_ranks_ar_AB synchronous_sweep_ar_AB)
    (simp add: rat_arith_def)

lemma sweeps_tight_AB:
  "sweeps_ar tight_arith corpus_AB (1 / 250) 0 = [(''A'', 1 / 2), (''B'', 1 / 2)] \<and>
   sweeps_ar tight_arith corpus_AB (1 / 250) (Suc 0) = [(''A'', 499 / 1000), (''B'', 501 / 1000)] \<and>
   sweeps_ar tight_arith corpus_AB (1 / 250) (Suc (Suc 0)) =
     [(''A'', 249501 / 500000), (''B'', 250499 / 500000)]"
  by (simp add: sweeps_ar_0 sweeps_ar_Suc uniform_ranks_ar_AB synchronous_sweep_ar_AB)
    (simp add: tight_arith_def rat_arith_def)

lemma stops_at_rat_AB: "stops_at_ar rat_arith corpus_AB (1 / 250) 0"
  by (simp add: stops_at_ar_def sweeps_rat_AB converged_ar_AB) (simp add: rat_arith_def)

lemma stops_at_tight_AB: "stops_at_ar tight_arith corpus_AB (1 / 250) (Suc 0)"
  by (simp add: stops_at_ar_def sweeps_tight_AB converged_ar_AB)
    (simp add: tight_arith_def rat_arith_def)

text \<open>
  Witness of C6 on the two-page corpus with damping factor 0.004. In exact arithmetic the
  first sweep moves both ranks by exactly 0.001, so the function returns after one sweep;
  in the arithmetic whose \<^verbatim>\<open>>\<close> holds at that change it makes a second sweep. The
  theorem gives both results.
\<close>

theorem iterate_pagerank_ar_synchronous_witness:
  "distinct (map fst corpus_AB) \<and>
   (\<exists>new_rank'. sweep_ar rat_arith corpus_AB (1 / 250) [(''A'', 1 / 2), (''B'', 1 / 2)] [] =
      Inr (True, [(''A'', 499 / 1000), (''B'', 501 / 1000)], new_rank')) \<and>
   iterate_pagerank_ar rat_arith corpus_AB (1 / 250) =
     Some (Inr [(''A'', 499 / 1000), (''B'', 501 / 1000)]) \<and>
   iterate_pagerank_ar tight_arith corpus_AB (1 / 250) =
     Some (Inr [(''A'', 249501 / 500000), (''B'', 250499 / 500000)])"
proof -
  have d: "distinct (map fst corpus_AB)" using corpus_AB_graph by simp
  have k: "map fst [(''A'', 1 / 2 :: rat), (''B'', 1 / 2)] = map fst corpus_AB"
    by (simp add: corpus_AB_def)
  note t = iterate_pagerank_ar_synchronous[OF d, of "[(''A'', 1 / 2), (''B'', 1 / 2)]" rat_arith
      "1 / 250" "[]" "Inr [(''A'', 499 / 1000), (''B'', 501 / 1000)]"]
  note u = iterate_pagerank_ar_synchronous[OF d, of "[(''A'', 1 / 2), (''B'', 1 / 2)]" tight_arith
      "1 / 250" "[]" "Inr [(''A'', 249501 / 500000), (''B'', 250499 / 500000)]"]
  have s: "synchronous_sweep_ar rat_arith corpus_AB (1 / 250) [(''A'', 1 / 2), (''B'', 1 / 2)] =
      [(''A'', 499 / 1000), (''B'', 501 / 1000)]"
    by (simp only: synchronous_sweep_ar_AB) (simp add: rat_arith_def)
  have c: "converged_ar rat_arith [(''A'', 1 / 2), (''B'', 1 / 2)]
      [(''A'', 499 / 1000), (''B'', 501 / 1000)] = True"
    by (simp only: converged_ar_AB) (simp add: rat_arith_def)
  have "\<exists>new_rank'. sweep_ar rat_arith corpus_AB (1 / 250) [(''A'', 1 / 2), (''B'', 1 / 2)] [] =
      Inr (True, [(''A'', 499 / 1000), (''B'', 501 / 1000)], new_rank')"
    using t k by (simp only: s c)
  moreover have "iterate_pagerank_ar rat_arith corpus_AB (1 / 250) =
      Some (Inr [(''A'', 499 / 1000), (''B'', 501 / 1000)])"
  proof -
    have "\<exists>k. stops_at_ar rat_arith corpus_AB (1 / 250) k \<and>
        Inr [(''A'', 499 / 1000), (''B'', 501 / 1000)] =
          (Inr (sweeps_ar rat_arith corpus_AB (1 / 250) (Suc k)) ::
             py_error + (string \<times> rat) list)"
      using stops_at_rat_AB sweeps_rat_AB by (intro exI[of _ 0]) simp
    then show ?thesis by (rule t[THEN conjunct2, THEN iffD2])
  qed
  moreover have "iterate_pagerank_ar tight_arith corpus_AB (1 / 250) =
      Some (Inr [(''A'', 249501 / 500000), (''B'', 250499 / 500000)])"
  proof -
    have "\<exists>k. stops_at_ar tight_arith corpus_AB (1 / 250) k \<and>
        Inr [(''A'', 249501 / 500000), (''B'', 250499 / 500000)] =
          (Inr (sweeps_ar tight_arith corpus_AB (1 / 250) (Suc k)) ::
             py_error + (string \<times> rat) list)"
      using stops_at_tight_AB sweeps_tight_AB by (intro exI[of _ "Suc 0"]) simp
    then show ?thesis by (rule u[THEN conjunct2, THEN iffD2])
  qed
  ultimately show ?thesis using d by blast
qed

end
